theory Spec2Isabelle
  imports Main "HOL-Library.AList" "HOL-Library.Char_ord" "HOL-Library.List_Lexorder"
    "HOL-Library.Multiset"
begin

section \<open>The data model of package lww\<close>

text \<open>
  The development embeds the Last-Writer-Wins element set of \<^verbatim>\<open>lww/element_set.go\<close> and
  the graph composed from it. Of the two revisions of \<^verbatim>\<open>graph.go\<close> among the sources, the
  graph is the longer one (the one that has \<^verbatim>\<open>List\<close>, \<^verbatim>\<open>VertexWithEdges\<close> and the recursive
  \<^verbatim>\<open>findPath\<close>, and that the tests exercise). The traversals of the shorter one
  are embedded beside them, under names of their own. The graph calls the set's \<^verbatim>\<open>Contains\<close> and
  \<^verbatim>\<open>Replicate\<close> under the names \<^verbatim>\<open>Lookup\<close> and \<^verbatim>\<open>Merge\<close>.

  \<^item> \<^verbatim>\<open>time.Time\<close> is an instant on the integer line; the zero value of the type is the
    instant \<open>0\<close>, and \<^verbatim>\<open>t.After(u)\<close> is \<open>u < t\<close>. The clock read by \<^verbatim>\<open>time.Now()\<close> is an
    argument \<open>now\<close> of every operation that reads it.
  \<^item> A Go map is an association list with distinct keys. \<^verbatim>\<open>m[k] = v\<close> is \<open>AList.update\<close>,
    \<^verbatim>\<open>v, ok := m[k]\<close> is \<open>map_of\<close>, and \<^verbatim>\<open>range m\<close> walks the list. Go leaves the order
    of \<^verbatim>\<open>range\<close> open; the theorems below quantify over every association list, hence
    over every order in which the same map can be walked.
  \<^item> A Go slice value is either \<^verbatim>\<open>nil\<close> or a list of elements.
  \<^item> The mutexes are left out: every operation runs alone.
\<close>

type_synonym Timestamp = int

definition After :: "Timestamp \<Rightarrow> Timestamp \<Rightarrow> bool" where
  "After t u \<longleftrightarrow> u < t"

datatype error =
    ErrElementNotFound
  | ErrVertexAlreadyExists
  | ErrInvalidVertexType
  | ErrVertexNotFound
  | ErrPathNotFound

datatype 'a slice = NilSlice | Slice "'a list"

text \<open>\<^verbatim>\<open>range\<close> over a slice; over \<^verbatim>\<open>nil\<close> it runs no iteration.\<close>

fun elems :: "'a slice \<Rightarrow> 'a list" where
  "elems NilSlice = []"
| "elems (Slice xs) = xs"

text \<open>\<^verbatim>\<open>append(s, x)\<close>: the result is never \<^verbatim>\<open>nil\<close>.\<close>

fun append_slice :: "'a slice \<Rightarrow> 'a \<Rightarrow> 'a slice" where
  "append_slice NilSlice x = Slice [x]"
| "append_slice (Slice xs) x = Slice (xs @ [x])"

record Vertex =
  Key :: string
  Value :: string

text \<open>The interface \<^verbatim>\<open>Element\<close> with its two implementations, \<^verbatim>\<open>IDElement\<close> and \<^verbatim>\<open>Vertex\<close>.\<close>

datatype Element = IDElement string | VertexElement Vertex

fun GetKey :: "Element \<Rightarrow> string" where
  "GetKey (IDElement e) = e"
| "GetKey (VertexElement v) = Key v"

record addRecord =
  Element :: Element
  Timestamp :: Timestamp

record Set_lww =
  additions :: "(string \<times> addRecord) list"
  removals :: "(string \<times> Timestamp) list"

section \<open>The element set (element\_set.go)\<close>

definition NewSet :: Set_lww where
  "NewSet = \<lparr>additions = [], removals = []\<rparr>"

definition Add :: "Element \<Rightarrow> Timestamp \<Rightarrow> Set_lww \<Rightarrow> Set_lww" where
  "Add e now s =
     s\<lparr>additions := AList.update (GetKey e) \<lparr>Element = e, Timestamp = now\<rparr> (additions s)\<rparr>"

definition Remove :: "string \<Rightarrow> Timestamp \<Rightarrow> Set_lww \<Rightarrow> Set_lww" where
  "Remove key now s = s\<lparr>removals := AList.update key now (removals s)\<rparr>"

text \<open>One iteration of the first loop of \<^verbatim>\<open>Replicate\<close>, on the local additions.\<close>

fun replicate_addition ::
  "(string \<times> addRecord) list \<Rightarrow> string \<times> addRecord \<Rightarrow> (string \<times> addRecord) list" where
  "replicate_addition loc (key, remoteRecord) =
     (case map_of loc key of
        None \<Rightarrow> AList.update key remoteRecord loc
      | Some localRecord \<Rightarrow>
          if After (Timestamp remoteRecord) (Timestamp localRecord)
          then AList.update key remoteRecord loc
          else loc)"

text \<open>One iteration of the second loop, on the local removals.\<close>

fun replicate_removal ::
  "(string \<times> Timestamp) list \<Rightarrow> string \<times> Timestamp \<Rightarrow> (string \<times> Timestamp) list" where
  "replicate_removal loc (key, remoteRemovedAt) =
     (case map_of loc key of
        None \<Rightarrow> AList.update key remoteRemovedAt loc
      | Some localRemovedAt \<Rightarrow>
          if After remoteRemovedAt localRemovedAt
          then AList.update key remoteRemovedAt loc
          else loc)"

definition Replicate :: "Set_lww \<Rightarrow> Set_lww \<Rightarrow> Set_lww" where
  "Replicate s remote =
     s\<lparr>additions := foldl replicate_addition (additions s) (additions remote),
       removals := foldl replicate_removal (removals s) (removals remote)\<rparr>"

text \<open>
  \<^verbatim>\<open>removedAt, removed := s.removals[key]\<close>: a missing key reads as the zero value of the
  value type and \<^verbatim>\<open>false\<close>.
\<close>

definition comma_ok :: "'v \<Rightarrow> (string \<times> 'v) list \<Rightarrow> string \<Rightarrow> 'v \<times> bool" where
  "comma_ok zero m key = (case map_of m key of None \<Rightarrow> (zero, False) | Some v \<Rightarrow> (v, True))"

definition removed :: "Set_lww \<Rightarrow> addRecord \<Rightarrow> bool" where
  "removed s rec =
     (let (removedAt, removed) = comma_ok 0 (removals s) (GetKey (Element rec))
      in removed \<or> After removedAt (Timestamp rec))"

definition Contains :: "Set_lww \<Rightarrow> string \<Rightarrow> error + Element" where
  "Contains s key =
     (case map_of (additions s) key of
        None \<Rightarrow> Inl ErrElementNotFound
      | Some addRecord \<Rightarrow>
          if removed s addRecord then Inl ErrElementNotFound
          else Inr (Element addRecord))"

text \<open>
  \<^verbatim>\<open>List\<close> starts from the empty, non-nil slice and appends the element of every record
  that \<^verbatim>\<open>removed\<close> does not reject.
\<close>

definition Set_List :: "Set_lww \<Rightarrow> Element slice" where
  "Set_List s =
     foldl (\<lambda>list rec. if removed s rec then list else append_slice list (Element rec))
       (Slice []) (map snd (additions s))"

section \<open>The graph (graph.go)\<close>

text \<open>
  A \<^verbatim>\<open>Set\<close> holds its two maps by reference, and so does a \<^verbatim>\<open>Graph\<close> its \<^verbatim>\<open>edges\<close>: a method
  called on a copy of the struct writes the maps of the original. The model passes the
  state explicitly and returns it updated; a \<^verbatim>\<open>Set\<close> read out of \<^verbatim>\<open>edges\<close> and then written
  to is stored back under its key.

  An error wrapped with a message (\<^verbatim>\<open>errors.Wrapf\<close>) is its cause: \<^verbatim>\<open>errors.Is\<close> sees nothing
  else of it.
\<close>

record Graph =
  vertices :: Set_lww
  edges :: "(string \<times> Set_lww) list"

record VertexWithEdges =
  Vertex :: Vertex
  AdjacentKeys :: "string slice"

definition NewGraph :: Graph where
  "NewGraph = \<lparr>vertices = NewSet, edges = []\<rparr>"

definition Lookup :: "Graph \<Rightarrow> string \<Rightarrow> error + Vertex" where
  "Lookup g key =
     (case Contains (vertices g) key of
        Inl err \<Rightarrow> if err = ErrElementNotFound then Inl ErrVertexNotFound else Inl err
      | Inr foundElement \<Rightarrow>
          (case foundElement of
             VertexElement v \<Rightarrow> Inr v
           | IDElement _ \<Rightarrow> Inl ErrInvalidVertexType))"

text \<open>
  \<^verbatim>\<open>getAdjacent\<close> stores a new empty set under a key it meets for the first time, also
  when a reading operation calls it, so it returns the graph as well.
\<close>

definition getAdjacent :: "Graph \<Rightarrow> string \<Rightarrow> Graph \<times> Set_lww" where
  "getAdjacent g vertexKey =
     (case map_of (edges g) vertexKey of
        None \<Rightarrow> (g\<lparr>edges := AList.update vertexKey NewSet (edges g)\<rparr>, NewSet)
      | Some adjacent \<Rightarrow> (g, adjacent))"

definition AddVertex :: "Vertex \<Rightarrow> Timestamp \<Rightarrow> Graph \<Rightarrow> Graph \<times> error option" where
  "AddVertex v now g =
     (case Lookup g (Key v) of
        Inr _ \<Rightarrow> (g, Some ErrVertexAlreadyExists)
      | Inl err \<Rightarrow>
          if err \<noteq> ErrVertexNotFound then (g, Some err)
          else (g\<lparr>vertices := Add (VertexElement v) now (vertices g)\<rparr>, None))"

definition RemoveVertex :: "string \<Rightarrow> Timestamp \<Rightarrow> Graph \<Rightarrow> Graph \<times> error option" where
  "RemoveVertex key now g =
     (case Lookup g key of
        Inl err \<Rightarrow> (g, Some err)
      | Inr _ \<Rightarrow> (g\<lparr>vertices := Remove key now (vertices g)\<rparr>, None))"

definition AddEdge :: "string \<Rightarrow> string \<Rightarrow> Timestamp \<Rightarrow> Graph \<Rightarrow> Graph \<times> error option" where
  "AddEdge fromKey toKey now g =
     (case Lookup g fromKey of
        Inl err \<Rightarrow> (g, Some err)
      | Inr _ \<Rightarrow>
          (case Lookup g toKey of
             Inl err \<Rightarrow> (g, Some err)
           | Inr _ \<Rightarrow>
               (let (g', adjacent) = getAdjacent g fromKey
                in (g'\<lparr>edges :=
                         AList.update fromKey (Add (IDElement toKey) now adjacent) (edges g')\<rparr>,
                    None))))"

definition RemoveEdge :: "string \<Rightarrow> string \<Rightarrow> Timestamp \<Rightarrow> Graph \<Rightarrow> Graph \<times> error option" where
  "RemoveEdge fromKey toKey now g =
     (case Lookup g fromKey of
        Inl err \<Rightarrow> (g, Some err)
      | Inr _ \<Rightarrow>
          (case Lookup g toKey of
             Inl err \<Rightarrow> (g, Some err)
           | Inr _ \<Rightarrow>
               (let (g', adjacent) = getAdjacent g fromKey
                in (g'\<lparr>edges := AList.update fromKey (Remove toKey now adjacent) (edges g')\<rparr>,
                    None))))"

subsection \<open>FindConnected\<close>

text \<open>
  The inner loop of \<^verbatim>\<open>FindConnected\<close> over the listed adjacency of the dequeued vertex. The
  set \<^verbatim>\<open>visited\<close> is only ever asked for membership.
\<close>

fun connect_loop ::
  "Graph \<Rightarrow> string set \<Rightarrow> Vertex slice \<Rightarrow> Vertex list \<Rightarrow> Element list \<Rightarrow>
     error + (string set \<times> Vertex slice \<times> Vertex list)" where
  "connect_loop g visited connected queue [] = Inr (visited, connected, queue)"
| "connect_loop g visited connected queue (v # rest) =
     (case Lookup g (GetKey v) of
        Inl err \<Rightarrow>
          if err = ErrVertexNotFound then connect_loop g visited connected queue rest
          else Inl err
      | Inr vertex \<Rightarrow>
          if Key vertex \<in> visited then connect_loop g visited connected queue rest
          else connect_loop g (insert (Key vertex) visited) (append_slice connected vertex)
                 (queue @ [vertex]) rest)"

text \<open>The outer \<^verbatim>\<open>for\<close> loop; a run that never leaves it has the value \<open>None\<close>.\<close>

partial_function (option) connect_queue ::
  "Graph \<Rightarrow> string set \<Rightarrow> Vertex slice \<Rightarrow> Vertex list \<Rightarrow>
     (Graph \<times> (error + Vertex slice)) option" where
  "connect_queue g visited connected queue =
     (if length queue = 0 then Some (g, Inr connected)
      else
        (let current = hd queue; queue' = tl queue;
             (g', adjacent) = getAdjacent g (Key current)
         in case connect_loop g' visited connected queue' (elems (Set_List adjacent)) of
              Inl err \<Rightarrow> Some (g', Inl err)
            | Inr (visited', connected', queue'') \<Rightarrow>
                connect_queue g' visited' connected' queue''))"

declare connect_queue.simps [code]

definition FindConnected :: "Graph \<Rightarrow> string \<Rightarrow> (Graph \<times> (error + Vertex slice)) option" where
  "FindConnected g key =
     (case Lookup g key of
        Inl err \<Rightarrow> Some (g, Inl err)
      | Inr start \<Rightarrow> connect_queue g {} (Slice []) [start])"

subsection \<open>FindPath\<close>

text \<open>
  \<^verbatim>\<open>findPath\<close> calls itself from inside its loop. The first argument bounds the depth of the
  calls: a search that needs more has the value \<open>None\<close>. The map \<^verbatim>\<open>visited\<close> is shared by
  all the calls, so it is returned; \<^verbatim>\<open>append(currentPath, vertex)\<close> writes one place past
  the end of \<^verbatim>\<open>currentPath\<close> and never a place \<^verbatim>\<open>currentPath\<close> itself reads, so the paths are
  plain lists.
\<close>

fun findPath ::
  "nat \<Rightarrow> Graph \<Rightarrow> Vertex \<Rightarrow> string \<Rightarrow> Vertex list \<Rightarrow> string set \<Rightarrow>
     ((Graph \<times> string set) \<times> (error + Vertex list)) option"
and findPath_loop ::
  "nat \<Rightarrow> Graph \<Rightarrow> string \<Rightarrow> Vertex list \<Rightarrow> string set \<Rightarrow> Element list \<Rightarrow>
     ((Graph \<times> string set) \<times> (error + Vertex list)) option" where
  "findPath 0 g start searchKey currentPath visited = None"
| "findPath (Suc depth) g start searchKey currentPath visited =
     (if Key start \<in> visited then Some ((g, visited), Inl ErrPathNotFound)
      else
        (case getAdjacent g (Key start) of
           (g', adjacent) \<Rightarrow>
             findPath_loop depth g' searchKey currentPath (insert (Key start) visited)
               (elems (Set_List adjacent))))"
| "findPath_loop depth g searchKey currentPath visited [] =
     Some ((g, visited), Inl ErrPathNotFound)"
| "findPath_loop depth g searchKey currentPath visited (v # rest) =
     (case Lookup g (GetKey v) of
        Inl err \<Rightarrow>
          if err = ErrVertexNotFound
          then findPath_loop depth g searchKey currentPath visited rest
          else Some ((g, visited), Inl err)
      | Inr vertex \<Rightarrow>
          if Key vertex = searchKey then Some ((g, visited), Inr (currentPath @ [vertex]))
          else
            (case findPath depth g vertex searchKey (currentPath @ [vertex]) visited of
               None \<Rightarrow> None
             | Some ((g', visited'), Inl err) \<Rightarrow>
                 if err = ErrPathNotFound
                 then findPath_loop depth g' searchKey currentPath visited' rest
                 else Some ((g', visited'), Inl err)
             | Some ((g', visited'), Inr path) \<Rightarrow> Some ((g', visited'), Inr path)))"

definition FindPath ::
  "nat \<Rightarrow> Graph \<Rightarrow> string \<Rightarrow> string \<Rightarrow> (Graph \<times> (error + Vertex list)) option" where
  "FindPath depth g fromKey toKey =
     (case Lookup g fromKey of
        Inl err \<Rightarrow> Some (g, Inl err)
      | Inr start \<Rightarrow>
          (case Lookup g toKey of
             Inl err \<Rightarrow> Some (g, Inl err)
           | Inr _ \<Rightarrow>
               (case findPath depth g start toKey [start] {} of
                  None \<Rightarrow> None
                | Some ((g', visited), result) \<Rightarrow> Some (g', result))))"

subsection \<open>List and Merge\<close>

text \<open>
  \<^verbatim>\<open>sort.Slice\<close> and \<^verbatim>\<open>sort.Strings\<close> order by \<^verbatim>\<open><\<close> on Go strings, the lexicographic order
  of their bytes. Where two keys are equal \<^verbatim>\<open>sort.Slice\<close> may leave them in either order;
  \<open>sort_key\<close> keeps them as they were.
\<close>

fun list_loop ::
  "Graph \<Rightarrow> VertexWithEdges slice \<Rightarrow> Element list \<Rightarrow>
     Graph \<times> (error + VertexWithEdges slice)" where
  "list_loop g list [] = (g, Inr list)"
| "list_loop g list (element # rest) =
     (case Lookup g (GetKey element) of
        Inl err \<Rightarrow> (g, Inl err)
      | Inr vertex \<Rightarrow>
          (case getAdjacent g (Key vertex) of
             (g', adjacentSet) \<Rightarrow>
               (let adjacent = elems (Set_List adjacentSet);
                    vwe = \<lparr>Vertex = vertex, AdjacentKeys = Slice (sort (map GetKey adjacent))\<rparr>
                in list_loop g' (append_slice list vwe) rest)))"

definition Graph_List :: "Graph \<Rightarrow> Graph \<times> (error + VertexWithEdges slice)" where
  "Graph_List g = list_loop g (Slice []) (sort_key GetKey (elems (Set_List (vertices g))))"

text \<open>One iteration of the loop of \<^verbatim>\<open>Merge\<close> over the remote \<^verbatim>\<open>edges\<close>.\<close>

fun merge_adjacent :: "Graph \<Rightarrow> string \<times> Set_lww \<Rightarrow> Graph" where
  "merge_adjacent g (vertexKey, remoteAdjacent) =
     (case getAdjacent g vertexKey of
        (g', localAdjacent) \<Rightarrow>
          g'\<lparr>edges := AList.update vertexKey (Replicate localAdjacent remoteAdjacent) (edges g')\<rparr>)"

definition Merge :: "Graph \<Rightarrow> Graph \<Rightarrow> Graph" where
  "Merge g remote =
     foldl merge_adjacent (g\<lparr>vertices := Replicate (vertices g) (vertices remote)\<rparr>)
       (edges remote)"

subsection \<open>The traversals of the earlier revision\<close>

text \<open>
  The shorter revision of \<^verbatim>\<open>graph.go\<close> has other traversals. They are embedded here under
  names that end in \<open>_early\<close>; its \<^verbatim>\<open>lookup\<close> is \<open>Lookup\<close> above.
\<close>

text \<open>
  The zero value of \<^verbatim>\<open>Set\<close> has two \<^verbatim>\<open>nil\<close> maps, which read as empty maps; the zero value of
  \<^verbatim>\<open>Vertex\<close> has two empty strings.
\<close>

definition zero_Set :: Set_lww where
  "zero_Set = \<lparr>additions = [], removals = []\<rparr>"

definition zero_Vertex :: Vertex where
  "zero_Vertex = \<lparr>Key = [], Value = []\<rparr>"

text \<open>
  \<^verbatim>\<open>getAdjacent\<close> declares a second \<^verbatim>\<open>edges\<close> inside the \<^verbatim>\<open>if\<close>: it stores the new set and
  returns the outer variable, the zero value.
\<close>

definition getAdjacent_early :: "Graph \<Rightarrow> string \<Rightarrow> Graph \<times> Set_lww" where
  "getAdjacent_early g vertexKey =
     (case map_of (edges g) vertexKey of
        None \<Rightarrow> (g\<lparr>edges := AList.update vertexKey NewSet (edges g)\<rparr>, zero_Set)
      | Some adjacent \<Rightarrow> (g, adjacent))"

text \<open>
  \<^verbatim>\<open>FindConnected\<close> returns the error of the lookup when the vertex of an adjacency key is not
  found; after any other error it goes on with the zero value that \<^verbatim>\<open>lookup\<close> returned for
  the vertex. \<^verbatim>\<open>connected\<close> is the named result and starts as \<^verbatim>\<open>nil\<close>; \<^verbatim>\<open>visited\<close> starts with
  the key of the start vertex.
\<close>

fun connect_loop_early ::
  "Graph \<Rightarrow> string set \<Rightarrow> Vertex slice \<Rightarrow> Vertex list \<Rightarrow> Element list \<Rightarrow>
     error + (string set \<times> Vertex slice \<times> Vertex list)" where
  "connect_loop_early g visited connected queue [] = Inr (visited, connected, queue)"
| "connect_loop_early g visited connected queue (v # rest) =
     (case Lookup g (GetKey v) of
        Inl err \<Rightarrow>
          if err = ErrVertexNotFound then Inl err
          else if Key zero_Vertex \<in> visited
          then connect_loop_early g visited connected queue rest
          else connect_loop_early g (insert (Key zero_Vertex) visited)
                 (append_slice connected zero_Vertex) (queue @ [zero_Vertex]) rest
      | Inr vertex \<Rightarrow>
          if Key vertex \<in> visited then connect_loop_early g visited connected queue rest
          else connect_loop_early g (insert (Key vertex) visited) (append_slice connected vertex)
                 (queue @ [vertex]) rest)"

partial_function (option) connect_queue_early ::
  "Graph \<Rightarrow> string set \<Rightarrow> Vertex slice \<Rightarrow> Vertex list \<Rightarrow>
     (Graph \<times> (error + Vertex slice)) option" where
  "connect_queue_early g visited connected queue =
     (if length queue = 0 then Some (g, Inr connected)
      else
        (let current = hd queue; queue' = tl queue;
             (g', adjacent) = getAdjacent_early g (Key current)
         in case connect_loop_early g' visited connected queue' (elems (Set_List adjacent)) of
              Inl err \<Rightarrow> Some (g', Inl err)
            | Inr (visited', connected', queue'') \<Rightarrow>
                connect_queue_early g' visited' connected' queue''))"

declare connect_queue_early.simps [code]

definition FindConnected_early ::
  "Graph \<Rightarrow> string \<Rightarrow> (Graph \<times> (error + Vertex slice)) option" where
  "FindConnected_early g key =
     (case Lookup g key of
        Inl err \<Rightarrow> Some (g, Inl err)
      | Inr start \<Rightarrow> connect_queue_early g {Key start} NilSlice [start])"

text \<open>
  \<^verbatim>\<open>FindPath\<close> keeps a stack. \<^verbatim>\<open>stack := stack[:stackLength-1]\<close> in the body of the \<^verbatim>\<open>for\<close>
  declares a new variable: the inner loop appends to it and the \<^verbatim>\<open>return\<close> returns it, and the
  next turn of the \<^verbatim>\<open>for\<close> reads the outer \<^verbatim>\<open>stack\<close> again, which nothing has changed.
\<close>

fun path_loop_early ::
  "Graph \<Rightarrow> string \<Rightarrow> string set \<Rightarrow> Vertex list \<Rightarrow> Element list \<Rightarrow>
     (error + Vertex slice) + (string set \<times> Vertex list)" where
  "path_loop_early g toKey visited stack [] = Inr (visited, stack)"
| "path_loop_early g toKey visited stack (v # rest) =
     (let (vertex, err) =
            (case Lookup g (GetKey v) of
               Inl err \<Rightarrow> (zero_Vertex, Some err)
             | Inr vertex \<Rightarrow> (vertex, None))
      in if err = Some ErrVertexNotFound then Inl (Inl ErrVertexNotFound)
         else if Key vertex = toKey then Inl (Inr (Slice stack))
         else if Key vertex \<in> visited then path_loop_early g toKey visited stack rest
         else path_loop_early g toKey (insert (Key vertex) visited) (stack @ [vertex]) rest)"

partial_function (option) path_stack_early ::
  "Graph \<Rightarrow> string \<Rightarrow> string set \<Rightarrow> Vertex list \<Rightarrow>
     (Graph \<times> (error + Vertex slice)) option" where
  "path_stack_early g toKey visited stack =
     (let stackLength = length stack in
      if stackLength = 0 then Some (g, Inl ErrPathNotFound)
      else
        (let current = stack ! (stackLength - 1);
             inner = take (stackLength - 1) stack;
             (g', adjacent) = getAdjacent_early g (Key current)
         in case path_loop_early g' toKey visited inner (elems (Set_List adjacent)) of
              Inl result \<Rightarrow> Some (g', result)
            | Inr (visited', inner') \<Rightarrow> path_stack_early g' toKey visited' stack))"

declare path_stack_early.simps [code]

definition FindPath_early ::
  "Graph \<Rightarrow> string \<Rightarrow> string \<Rightarrow> (Graph \<times> (error + Vertex slice)) option" where
  "FindPath_early g fromKey toKey =
     (case Lookup g fromKey of
        Inl err \<Rightarrow> Some (g, Inl err)
      | Inr start \<Rightarrow> path_stack_early g toKey {Key start} [start])"

section \<open>States the operations reach\<close>

text \<open>
  \<^verbatim>\<open>Add\<close> stores a record under the key of its element and \<^verbatim>\<open>Replicate\<close> copies records
  under the key they had, so in every set an operation of the package returns, a record
  sits under its element's key. The vertex set of a graph holds values of type \<^verbatim>\<open>Vertex\<close>,
  the adjacency sets hold values of type \<^verbatim>\<open>IDElement\<close>.
\<close>

definition keyed :: "Set_lww \<Rightarrow> bool" where
  "keyed s \<longleftrightarrow>
     distinct (map fst (additions s)) \<and> distinct (map fst (removals s)) \<and>
     list_all (\<lambda>(key, rec). GetKey (Element rec) = key) (additions s)"

definition vertex_set :: "Set_lww \<Rightarrow> bool" where
  "vertex_set s \<longleftrightarrow>
     keyed s \<and>
     list_all (\<lambda>(key, rec). case Element rec of VertexElement _ \<Rightarrow> True | IDElement _ \<Rightarrow> False)
       (additions s)"

definition adjacent_set :: "Set_lww \<Rightarrow> bool" where
  "adjacent_set s \<longleftrightarrow>
     keyed s \<and> list_all (\<lambda>(key, rec). Element rec = IDElement key) (additions s)"

definition wf_Graph :: "Graph \<Rightarrow> bool" where
  "wf_Graph g \<longleftrightarrow>
     vertex_set (vertices g) \<and> distinct (map fst (edges g)) \<and>
     list_all (\<lambda>(key, s). adjacent_set s) (edges g)"

text \<open>
  The states of a graph that the operations reach from \<^verbatim>\<open>NewGraph\<close>. The reading operations
  change a graph only through \<^verbatim>\<open>getAdjacent\<close>.
\<close>

inductive reachable :: "Graph \<Rightarrow> bool" where
  reach_NewGraph: "reachable NewGraph"
| reach_AddVertex: "reachable g \<Longrightarrow> reachable (fst (AddVertex v now g))"
| reach_RemoveVertex: "reachable g \<Longrightarrow> reachable (fst (RemoveVertex key now g))"
| reach_AddEdge: "reachable g \<Longrightarrow> reachable (fst (AddEdge fromKey toKey now g))"
| reach_RemoveEdge: "reachable g \<Longrightarrow> reachable (fst (RemoveEdge fromKey toKey now g))"
| reach_Merge: "reachable g \<Longrightarrow> reachable remote \<Longrightarrow> reachable (Merge g remote)"
| reach_getAdjacent: "reachable g \<Longrightarrow> reachable (fst (getAdjacent g key))"

section \<open>What a graph reads as\<close>

text \<open>
  The set \<^verbatim>\<open>getAdjacent\<close> hands out for a key: the stored one, or a new empty one.
\<close>

definition adjacent_of :: "Graph \<Rightarrow> string \<Rightarrow> Set_lww" where
  "adjacent_of g key = snd (getAdjacent g key)"

text \<open>A key is live when \<^verbatim>\<open>Lookup\<close> finds a vertex for it.\<close>

definition live :: "Graph \<Rightarrow> string \<Rightarrow> bool" where
  "live g key = (case Lookup g key of Inl _ \<Rightarrow> False | Inr _ \<Rightarrow> True)"

text \<open>
  The keys the adjacency set of \<open>key\<close> lists whose vertex is live, in the order of the
  listing, and the edges a traversal can follow.
\<close>

definition targets :: "Graph \<Rightarrow> string \<Rightarrow> string list" where
  "targets g key = filter (live g) (map GetKey (elems (Set_List (adjacent_of g key))))"

definition edge_rel :: "Graph \<Rightarrow> (string \<times> string) set" where
  "edge_rel g = {(a, b). b \<in> set (targets g a)}"

text \<open>
  A list of vertices follows the edges when each entry after the first is the live vertex
  of a key that the adjacency set of its predecessor lists.
\<close>

fun follows :: "Graph \<Rightarrow> Vertex list \<Rightarrow> bool" where
  "follows g [] = True"
| "follows g [v] = True"
| "follows g (a # b # path) =
     (Key b \<in> set (targets g (Key a)) \<and> Lookup g (Key b) = Inr b \<and> follows g (b # path))"

text \<open>The keys of the elements on record in the vertex set.\<close>

definition vertex_keys :: "Graph \<Rightarrow> string set" where
  "vertex_keys g = set (map (\<lambda>(key, rec). GetKey (Element rec)) (additions (vertices g)))"

text \<open>
  The vertices one run of the inner loop of \<^verbatim>\<open>FindConnected\<close> finds for the listed elements,
  and those of them it has not visited before.
\<close>

definition found :: "Graph \<Rightarrow> Element list \<Rightarrow> Vertex list" where
  "found g xs =
     List.map_filter (\<lambda>x. case Lookup g (GetKey x) of Inl _ \<Rightarrow> None | Inr v \<Rightarrow> Some v) xs"

fun fresh :: "string set \<Rightarrow> Vertex list \<Rightarrow> Vertex list" where
  "fresh visited [] = []"
| "fresh visited (v # vs) =
     (if Key v \<in> visited then fresh visited vs else v # fresh (insert (Key v) visited) vs)"

text \<open>
  What holds of \<^verbatim>\<open>connected\<close> and \<^verbatim>\<open>queue\<close> each time the outer loop of \<^verbatim>\<open>FindConnected\<close>
  started at \<open>k0\<close> comes round (\<^verbatim>\<open>visited\<close> holds the keys of \<^verbatim>\<open>connected\<close>): the connected
  vertices are live, distinct and reachable from \<open>k0\<close>, the queued ones are live and are the
  start or connected, and every target of a vertex that has left the queue is connected.
\<close>

definition connect_inv :: "Graph \<Rightarrow> string \<Rightarrow> Vertex list \<Rightarrow> Vertex list \<Rightarrow> bool" where
  "connect_inv g k0 connected queue \<longleftrightarrow>
     distinct (map Key connected) \<and>
     (\<forall>v\<in>set connected. Lookup g (Key v) = Inr v) \<and>
     Key ` set connected \<subseteq> (edge_rel g)\<^sup>+ `` {k0} \<and>
     (\<forall>v\<in>set queue. Lookup g (Key v) = Inr v \<and> (Key v = k0 \<or> Key v \<in> Key ` set connected)) \<and>
     (\<forall>a\<in>insert k0 (Key ` set connected).
        a \<notin> Key ` set queue \<longrightarrow> edge_rel g `` {a} \<subseteq> Key ` set connected)"

text \<open>
  What \<^verbatim>\<open>findPath\<close> called with \<^verbatim>\<open>currentPath = path\<close> returns as a path \<open>p\<close>: \<open>path\<close>
  extended by at least one vertex, following the edges, and ending in the vertex of \<open>key\<close>.
\<close>

definition sound :: "Graph \<Rightarrow> string \<Rightarrow> Vertex list \<Rightarrow> Vertex list \<Rightarrow> bool" where
  "sound g key path p \<longleftrightarrow>
     (\<exists>q. p = path @ q \<and> q \<noteq> []) \<and> follows g p \<and> Lookup g key = Inr (last p)"

text \<open>The entry of \<^verbatim>\<open>List\<close> for a vertex: the vertex and the sorted keys its adjacency set lists.\<close>

definition entry :: "Graph \<Rightarrow> Vertex \<Rightarrow> VertexWithEdges" where
  "entry g v =
     \<lparr>Vertex = v,
      AdjacentKeys = Slice (sort (map GetKey (elems (Set_List (adjacent_of g (Key v))))))\<rparr>"

text \<open>
  The two registers of a set as maps, without the order an association list gives them,
  and two graphs that hold the same registers.
\<close>

definition registers :: "Set_lww \<Rightarrow> (string \<rightharpoonup> addRecord) \<times> (string \<rightharpoonup> Timestamp)" where
  "registers s = (map_of (additions s), map_of (removals s))"

definition same_registers :: "Graph \<Rightarrow> Graph \<Rightarrow> bool" where
  "same_registers g g' \<longleftrightarrow>
     registers (vertices g) = registers (vertices g') \<and>
     (\<forall>key. registers (adjacent_of g key) = registers (adjacent_of g' key))"

text \<open>The same maps, walked in the opposite order.\<close>

definition reversed :: "Graph \<Rightarrow> Graph" where
  "reversed g =
     \<lparr>vertices = \<lparr>additions = rev (additions (vertices g)), removals = rev (removals (vertices g))\<rparr>,
      edges = rev (edges g)\<rparr>"

section \<open>Replicas and their merges\<close>

text \<open>
  Replicas are a list of graphs. A schedule is a list of pairs \<open>(dst, src)\<close>: replica \<open>dst\<close>
  merges the state replica \<open>src\<close> has at that moment (a pair that names no replica does
  nothing). Any order and any repetition of merges is a schedule.
\<close>

definition merge_at :: "nat \<times> nat \<Rightarrow> Graph list \<Rightarrow> Graph list" where
  "merge_at m replicas =
     (case m of (dst, src) \<Rightarrow>
        if dst < length replicas \<and> src < length replicas
        then replicas[dst := Merge (replicas ! dst) (replicas ! src)]
        else replicas)"

definition merges :: "(nat \<times> nat) list \<Rightarrow> Graph list \<Rightarrow> Graph list" where
  "merges schedule replicas = foldl (\<lambda>rs m. merge_at m rs) replicas schedule"

text \<open>
  \<^verbatim>\<open>replicateGraphs\<close> of the tests: every replica in turn merges every other one.
\<close>

definition all_pairs :: "nat \<Rightarrow> (nat \<times> nat) list" where
  "all_pairs n =
     concat (map (\<lambda>dst. map (\<lambda>src. (dst, src)) (filter (\<lambda>src. src \<noteq> dst) [0..<n])) [0..<n])"

definition replicateGraphs :: "Graph list \<Rightarrow> Graph list" where
  "replicateGraphs graphs = merges (all_pairs (length graphs)) graphs"

text \<open>
  The replicas whose state (as it was before the schedule) has reached replica \<open>i\<close>,
  directly or through others, when the schedule is over.
\<close>

definition heard_at :: "nat \<Rightarrow> nat \<times> nat \<Rightarrow> (nat \<Rightarrow> nat set) \<Rightarrow> (nat \<Rightarrow> nat set)" where
  "heard_at n m h =
     (case m of (dst, src) \<Rightarrow> if dst < n \<and> src < n then h(dst := h dst \<union> h src) else h)"

definition heard :: "nat \<Rightarrow> (nat \<times> nat) list \<Rightarrow> nat \<Rightarrow> nat set" where
  "heard n schedule = foldl (\<lambda>h m. heard_at n m h) (\<lambda>i. {i}) schedule"

text \<open>
  Two sets agree on simultaneous adds when a key that both have added at the same time has
  the same record in both; replicas are consistent when the vertex sets of any two agree.
\<close>

definition same_time_same_record :: "Set_lww \<Rightarrow> Set_lww \<Rightarrow> bool" where
  "same_time_same_record s s' \<longleftrightarrow>
     list_all (\<lambda>(key, rec). case map_of (additions s') key of
                 None \<Rightarrow> True
               | Some rec' \<Rightarrow> Timestamp rec = Timestamp rec' \<longrightarrow> rec = rec') (additions s)"

definition consistent :: "Graph list \<Rightarrow> bool" where
  "consistent replicas \<longleftrightarrow>
     list_all (\<lambda>g. list_all (\<lambda>g'. same_time_same_record (vertices g) (vertices g')) replicas)
       replicas"

text \<open>
  A register \<open>m\<close> holds the newest of a family \<open>M\<close> of registers when it has a key exactly if
  some member has it, and then holds a value of a member that none of them exceeds in
  time. \<open>later\<close> is the choice \<^verbatim>\<open>Replicate\<close> makes for one key.
\<close>

definition newest :: "(string \<rightharpoonup> 'v) set \<Rightarrow> ('v \<Rightarrow> Timestamp) \<Rightarrow> (string \<rightharpoonup> 'v) \<Rightarrow> bool" where
  "newest M time m \<longleftrightarrow>
     (\<forall>key. case m key of
        None \<Rightarrow> (\<forall>x\<in>M. x key = None)
      | Some v \<Rightarrow> (\<exists>x\<in>M. x key = Some v) \<and> (\<forall>x\<in>M. \<forall>v'. x key = Some v' \<longrightarrow> time v' \<le> time v))"

definition later :: "('v \<Rightarrow> Timestamp) \<Rightarrow> 'v option \<Rightarrow> 'v option \<Rightarrow> 'v option" where
  "later time l r =
     (case r of
        None \<Rightarrow> l
      | Some rv \<Rightarrow> (case l of None \<Rightarrow> Some rv | Some lv \<Rightarrow> if time lv < time rv then Some rv else Some lv))"

definition joins :: "Set_lww set \<Rightarrow> Set_lww \<Rightarrow> bool" where
  "joins S s \<longleftrightarrow>
     newest ((\<lambda>t. map_of (additions t)) ` S) Timestamp (map_of (additions s)) \<and>
     newest ((\<lambda>t. map_of (removals t)) ` S) (\<lambda>t. t) (map_of (removals s))"

definition joined :: "Graph list \<Rightarrow> nat set \<Rightarrow> Graph \<Rightarrow> bool" where
  "joined replicas K g \<longleftrightarrow>
     joins ((\<lambda>m. vertices (replicas ! m)) ` K) (vertices g) \<and>
     (\<forall>key. joins ((\<lambda>m. adjacent_of (replicas ! m) key) ` K) (adjacent_of g key))"

section \<open>Example states\<close>

text \<open>A key is added at time 1, removed at time 2 and added again at time 3.\<close>

definition readded :: Set_lww where
  "readded = Add (IDElement ''k'') 3 (Remove ''k'' 2 (Add (IDElement ''k'') 1 NewSet))"

text \<open>
  A local and a remote set: the remote record of \<open>a\<close> is later, that of \<open>b\<close> as old as the
  local one, that of \<open>c\<close> older, and \<open>d\<close> is new to the local set.
\<close>

definition local_set :: Set_lww where
  "local_set =
     \<lparr>additions =
        [(''a'', \<lparr>Element = IDElement ''a'', Timestamp = 1\<rparr>),
         (''b'', \<lparr>Element = VertexElement \<lparr>Key = ''b'', Value = ''here''\<rparr>, Timestamp = 2\<rparr>),
         (''c'', \<lparr>Element = IDElement ''c'', Timestamp = 3\<rparr>)],
      removals = [(''a'', 4), (''b'', 5), (''c'', 6)]\<rparr>"

definition remote_set :: Set_lww where
  "remote_set =
     \<lparr>additions =
        [(''d'', \<lparr>Element = IDElement ''d'', Timestamp = 1\<rparr>),
         (''c'', \<lparr>Element = IDElement ''c'', Timestamp = 2\<rparr>),
         (''b'', \<lparr>Element = VertexElement \<lparr>Key = ''b'', Value = ''there''\<rparr>, Timestamp = 2\<rparr>),
         (''a'', \<lparr>Element = IDElement ''a'', Timestamp = 7\<rparr>)],
      removals = [(''d'', 9), (''c'', 5), (''b'', 5), (''a'', 8)]\<rparr>"

text \<open>The graphs of the tests.\<close>

definition vertex1 :: Vertex where "vertex1 = \<lparr>Key = ''vertex1'', Value = ''value1''\<rparr>"
definition vertex2 :: Vertex where "vertex2 = \<lparr>Key = ''vertex2'', Value = ''value2''\<rparr>"
definition vertex3 :: Vertex where "vertex3 = \<lparr>Key = ''vertex3'', Value = ''value3''\<rparr>"
definition vertex4 :: Vertex where "vertex4 = \<lparr>Key = ''vertex4'', Value = ''value4''\<rparr>"
definition vertex5 :: Vertex where "vertex5 = \<lparr>Key = ''vertex5'', Value = ''value5''\<rparr>"

definition run_ops :: "(Graph \<Rightarrow> Graph \<times> error option) list \<Rightarrow> Graph \<Rightarrow> Graph" where
  "run_ops ops g = foldl (\<lambda>g op. fst (op g)) g ops"

text \<open>Five vertices and the edges v1 to v2, v1 to v3, v3 to v5 and v4 to v3.\<close>

definition five :: Graph where
  "five = run_ops
     [AddVertex vertex1 1, AddVertex vertex2 2, AddVertex vertex3 3, AddVertex vertex4 4,
      AddVertex vertex5 5, AddEdge ''vertex1'' ''vertex2'' 6, AddEdge ''vertex1'' ''vertex3'' 7,
      AddEdge ''vertex3'' ''vertex5'' 8, AddEdge ''vertex4'' ''vertex3'' 9] NewGraph"

definition without_vertex3 :: Graph where
  "without_vertex3 = fst (RemoveVertex ''vertex3'' 10 five)"

text \<open>The loops v1 to v2 to v1 and v2 to v3 to v4 to v1.\<close>

definition cycles :: Graph where
  "cycles = run_ops
     [AddVertex vertex1 1, AddVertex vertex2 2, AddVertex vertex3 3, AddVertex vertex4 4,
      AddEdge ''vertex1'' ''vertex2'' 5, AddEdge ''vertex2'' ''vertex1'' 6,
      AddEdge ''vertex2'' ''vertex3'' 7, AddEdge ''vertex3'' ''vertex4'' 8,
      AddEdge ''vertex4'' ''vertex1'' 9] NewGraph"

text \<open>One vertex, without an edge and with an edge to itself.\<close>

definition only_vertex1 :: Graph where
  "only_vertex1 = fst (AddVertex vertex1 1 NewGraph)"

definition self_loop :: Graph where
  "self_loop = fst (AddEdge ''vertex1'' ''vertex1'' 2 only_vertex1)"


text \<open>Two replicas add the same key with different values at the same time.\<close>

definition tie_a :: Graph where
  "tie_a = fst (AddVertex \<lparr>Key = ''k'', Value = ''a''\<rparr> 5 NewGraph)"

definition tie_b :: Graph where
  "tie_b = fst (AddVertex \<lparr>Key = ''k'', Value = ''b''\<rparr> 5 NewGraph)"

text \<open>
  The scenario of the tests: A adds v1; A and B replicate; A removes v1; B adds v2 and the
  edge v1 to v2; C adds v1.
\<close>

definition hanging :: "Graph list" where
  "hanging =
     (case replicateGraphs [fst (AddVertex vertex1 1 NewGraph), NewGraph] of
        [a, b] \<Rightarrow>
          [fst (RemoveVertex ''vertex1'' 2 a),
           run_ops [AddVertex vertex2 3, AddEdge ''vertex1'' ''vertex2'' 4] b,
           fst (AddVertex vertex1 5 NewGraph)]
      | _ \<Rightarrow> [])"

section \<open>Facts about the element set\<close>

lemma foldl_append_slice:
  "foldl (\<lambda>list x. if p x then list else append_slice list (f x)) (Slice acc) xs =
     Slice (acc @ map f (filter (\<lambda>x. \<not> p x) xs))"
  by (induction xs arbitrary: acc) simp_all

lemma Set_List_eq:
  "Set_List s = Slice (map Element (filter (\<lambda>rec. \<not> removed s rec) (map snd (additions s))))"
  unfolding Set_List_def by (simp add: foldl_append_slice)

lemma removed_iff:
  "removed s rec \<longleftrightarrow>
     map_of (removals s) (GetKey (Element rec)) \<noteq> None \<or> Timestamp rec < 0"
  by (auto simp: removed_def comma_ok_def After_def split: option.splits)

lemma Contains_Inr_iff:
  "Contains s key = Inr e \<longleftrightarrow>
     (\<exists>rec. map_of (additions s) key = Some rec \<and> e = Element rec \<and> \<not> removed s rec)"
  by (auto simp: Contains_def split: option.splits)

lemma map_of_replicate_addition:
  "map_of (replicate_addition loc (key, rr)) k =
     (if k = key
      then (case map_of loc key of
              None \<Rightarrow> Some rr
            | Some lr \<Rightarrow> if Timestamp lr < Timestamp rr then Some rr else Some lr)
      else map_of loc k)"
  by (simp add: update_conv' After_def split: option.splits)

lemma map_of_replicate_removal:
  "map_of (replicate_removal loc (key, rt)) k =
     (if k = key
      then (case map_of loc key of
              None \<Rightarrow> Some rt
            | Some lt \<Rightarrow> if lt < rt then Some rt else Some lt)
      else map_of loc k)"
  by (simp add: update_conv' After_def split: option.splits)

lemma map_of_foldl_replicate_addition:
  "distinct (map fst rs) \<Longrightarrow>
   map_of (foldl replicate_addition loc rs) k =
     (case map_of rs k of
        None \<Rightarrow> map_of loc k
      | Some rr \<Rightarrow>
          (case map_of loc k of
             None \<Rightarrow> Some rr
           | Some lr \<Rightarrow> if Timestamp lr < Timestamp rr then Some rr else Some lr))"
proof (induction rs arbitrary: loc)
  case Nil
  then show ?case by simp
next
  case (Cons x rs)
  obtain key rr where x: "x = (key, rr)" by (cases x)
  from Cons.prems x have fresh: "map_of rs key = None" and d: "distinct (map fst rs)"
    by (auto simp: map_of_eq_None_iff)
  have "map_of (foldl replicate_addition (replicate_addition loc (key, rr)) rs) k =
     (case map_of rs k of
        None \<Rightarrow> map_of (replicate_addition loc (key, rr)) k
      | Some r \<Rightarrow>
          (case map_of (replicate_addition loc (key, rr)) k of
             None \<Rightarrow> Some r
           | Some l \<Rightarrow> if Timestamp l < Timestamp r then Some r else Some l))"
    by (rule Cons.IH [OF d])
  with fresh show ?case
    by (cases "k = key")
      (simp_all add: x map_of_replicate_addition del: replicate_addition.simps split: option.splits)
qed

lemma map_of_foldl_replicate_removal:
  "distinct (map fst rs) \<Longrightarrow>
   map_of (foldl replicate_removal loc rs) k =
     (case map_of rs k of
        None \<Rightarrow> map_of loc k
      | Some rt \<Rightarrow>
          (case map_of loc k of
             None \<Rightarrow> Some rt
           | Some lt \<Rightarrow> if lt < rt then Some rt else Some lt))"
proof (induction rs arbitrary: loc)
  case Nil
  then show ?case by simp
next
  case (Cons x rs)
  obtain key rt where x: "x = (key, rt)" by (cases x)
  from Cons.prems x have fresh: "map_of rs key = None" and d: "distinct (map fst rs)"
    by (auto simp: map_of_eq_None_iff)
  have "map_of (foldl replicate_removal (replicate_removal loc (key, rt)) rs) k =
     (case map_of rs k of
        None \<Rightarrow> map_of (replicate_removal loc (key, rt)) k
      | Some r \<Rightarrow>
          (case map_of (replicate_removal loc (key, rt)) k of
             None \<Rightarrow> Some r
           | Some l \<Rightarrow> if l < r then Some r else Some l))"
    by (rule Cons.IH [OF d])
  with fresh show ?case
    by (cases "k = key")
      (simp_all add: x map_of_replicate_removal del: replicate_removal.simps split: option.splits)
qed

lemma keys_replicate_addition:
  "fst ` set (replicate_addition loc x) = fst ` set loc \<union> {fst x}"
proof (cases x)
  case (Pair key rr)
  have "map_of loc key = Some lr \<Longrightarrow> key \<in> fst ` set loc" for lr
    by (metis domI dom_map_of_conv_image_fst)
  then show ?thesis
    by (auto simp: Pair dom_update split: option.splits)
qed

lemma keys_replicate_removal:
  "fst ` set (replicate_removal loc x) = fst ` set loc \<union> {fst x}"
proof (cases x)
  case (Pair key rt)
  have "map_of loc key = Some lt \<Longrightarrow> key \<in> fst ` set loc" for lt
    by (metis domI dom_map_of_conv_image_fst)
  then show ?thesis
    by (auto simp: Pair dom_update split: option.splits)
qed

lemma keys_foldl_replicate_addition:
  "fst ` set (foldl replicate_addition loc rs) = fst ` set loc \<union> fst ` set rs"
  by (induction rs arbitrary: loc) (auto simp: keys_replicate_addition simp del: replicate_addition.simps)

lemma keys_foldl_replicate_removal:
  "fst ` set (foldl replicate_removal loc rs) = fst ` set loc \<union> fst ` set rs"
  by (induction rs arbitrary: loc) (auto simp: keys_replicate_removal simp del: replicate_removal.simps)

section \<open>Facts about the graph\<close>

lemma Lookup_Inr_iff:
  "Lookup g key = Inr v \<longleftrightarrow> Contains (vertices g) key = Inr (VertexElement v)"
  by (auto simp: Lookup_def split: sum.splits Element.splits)

lemma keyed_map_of:
  "keyed s \<Longrightarrow> map_of (additions s) key = Some rec \<Longrightarrow> GetKey (Element rec) = key"
  by (auto simp: keyed_def list_all_iff dest!: map_of_SomeD)

lemma vertex_set_map_of:
  "vertex_set s \<Longrightarrow> map_of (additions s) key = Some rec \<Longrightarrow>
     \<exists>v. Element rec = VertexElement v \<and> Key v = key"
proof -
  assume vs: "vertex_set s" and m: "map_of (additions s) key = Some rec"
  from m have "(key, rec) \<in> set (additions s)" by (rule map_of_SomeD)
  with vs have "GetKey (Element rec) = key"
    and "case Element rec of VertexElement _ \<Rightarrow> True | IDElement _ \<Rightarrow> False"
    by (auto simp: vertex_set_def keyed_def list_all_iff)
  then show ?thesis by (cases "Element rec") auto
qed

lemma adjacent_set_map_of:
  "adjacent_set s \<Longrightarrow> map_of (additions s) key = Some rec \<Longrightarrow> Element rec = IDElement key"
  by (auto simp: adjacent_set_def list_all_iff dest!: map_of_SomeD)

lemma Lookup_Key: "vertex_set (vertices g) \<Longrightarrow> Lookup g key = Inr v \<Longrightarrow> Key v = key"
  by (auto simp: Lookup_Inr_iff Contains_Inr_iff dest: vertex_set_map_of)

lemma Lookup_Inl: "vertex_set (vertices g) \<Longrightarrow> Lookup g key = Inl err \<Longrightarrow> err = ErrVertexNotFound"
  by (auto simp: Lookup_def Contains_def split: sum.splits Element.splits option.splits if_splits
      dest: vertex_set_map_of)

lemma live_iff: "live g key \<longleftrightarrow> (\<exists>v. Lookup g key = Inr v)"
  by (auto simp: live_def split: sum.splits)

lemma not_live_iff: "vertex_set (vertices g) \<Longrightarrow> \<not> live g key \<longleftrightarrow> Lookup g key = Inl ErrVertexNotFound"
  by (auto simp: live_def split: sum.splits dest: Lookup_Inl)

lemma vertices_getAdjacent [simp]: "vertices (fst (getAdjacent g key)) = vertices g"
  by (simp add: getAdjacent_def split: option.splits)

lemma Lookup_getAdjacent [simp]: "Lookup (fst (getAdjacent g key)) = Lookup g"
  by (rule ext) (simp add: Lookup_def)

lemma map_of_edges_getAdjacent:
  "map_of (edges (fst (getAdjacent g key))) = (map_of (edges g))(key \<mapsto> adjacent_of g key)"
  by (auto simp: getAdjacent_def adjacent_of_def update_conv' split: option.splits)

lemma adjacent_of_getAdjacent [simp]:
  "adjacent_of (fst (getAdjacent g key)) key' = adjacent_of g key'"
  by (auto simp: getAdjacent_def adjacent_of_def update_conv' split: option.splits)

lemma adjacent_of_alt:
  "adjacent_of g key = (case map_of (edges g) key of None \<Rightarrow> NewSet | Some s \<Rightarrow> s)"
  by (simp add: adjacent_of_def getAdjacent_def split: option.splits)

subsection \<open>The traversals return\<close>

lemma found_Nil [simp]: "found g [] = []"
  by (simp add: found_def map_filter_simps)

lemma found_Cons:
  "found g (x # xs) = (case Lookup g (GetKey x) of Inl _ \<Rightarrow> found g xs | Inr v \<Rightarrow> v # found g xs)"
  by (simp add: found_def map_filter_simps split: sum.splits)

lemma set_found: "set (found g xs) = {v. \<exists>x\<in>set xs. Lookup g (GetKey x) = Inr v}"
  by (induction xs) (auto simp: found_Cons split: sum.splits)

lemma fresh_subset: "set (fresh visited vs) \<subseteq> set vs"
  by (induction vs arbitrary: visited) auto

lemma fresh_keys: "visited \<union> Key ` set (fresh visited vs) = visited \<union> Key ` set vs"
proof (induction vs arbitrary: visited)
  case Nil
  show ?case by simp
next
  case (Cons v vs)
  from Cons.IH [of visited] Cons.IH [of "insert (Key v) visited"] show ?case by auto
qed

lemma fresh_disjoint: "Key ` set (fresh visited vs) \<inter> visited = {}"
proof (induction vs arbitrary: visited)
  case Nil
  show ?case by simp
next
  case (Cons v vs)
  from Cons.IH [of visited] Cons.IH [of "insert (Key v) visited"] show ?case by auto
qed

lemma fresh_distinct: "distinct (map Key (fresh visited vs))"
proof (induction vs arbitrary: visited)
  case Nil
  show ?case by simp
next
  case (Cons v vs)
  from fresh_disjoint [of "insert (Key v) visited" vs] Cons.IH show ?case by auto
qed

lemma connect_loop_closed:
  assumes "vertex_set (vertices g)"
  shows "connect_loop g visited (Slice c) q xs =
     Inr (visited \<union> Key ` set (fresh visited (found g xs)),
          Slice (c @ fresh visited (found g xs)), q @ fresh visited (found g xs))"
proof (induction xs arbitrary: visited c q)
  case Nil
  show ?case by simp
next
  case (Cons x xs)
  show ?case
  proof (cases "Lookup g (GetKey x)")
    case (Inl err)
    with assms have "err = ErrVertexNotFound" by (auto dest: Lookup_Inl)
    with Inl Cons.IH show ?thesis by (simp add: found_Cons)
  next
    case (Inr v)
    with Cons.IH show ?thesis by (auto simp: found_Cons)
  qed
qed

lemma Lookup_vertex_keys: "Lookup g key = Inr v \<Longrightarrow> Key v \<in> vertex_keys g"
proof -
  assume "Lookup g key = Inr v"
  then obtain rec where "map_of (additions (vertices g)) key = Some rec"
    and e: "Element rec = VertexElement v"
    by (auto simp: Lookup_Inr_iff Contains_Inr_iff)
  then have "(key, rec) \<in> set (additions (vertices g))" by (auto dest: map_of_SomeD)
  then have "GetKey (Element rec) \<in> vertex_keys g"
    unfolding vertex_keys_def by force
  with e show ?thesis by simp
qed

lemma finite_vertex_keys [simp]: "finite (vertex_keys g)"
  by (simp add: vertex_keys_def)

lemma vertex_keys_getAdjacent [simp]: "vertex_keys (fst (getAdjacent g key)) = vertex_keys g"
  by (simp add: vertex_keys_def)

lemma connect_loop_measure:
  "connect_loop g visited connected queue xs = Inr (visited', connected', queue') \<Longrightarrow>
     card (vertex_keys g - visited') + length queue' = card (vertex_keys g - visited) + length queue"
proof (induction xs arbitrary: visited connected queue)
  case Nil
  then show ?case by simp
next
  case (Cons x xs)
  show ?case
  proof (cases "Lookup g (GetKey x)")
    case (Inl err)
    with Cons show ?thesis by (auto split: if_splits)
  next
    case (Inr v)
    show ?thesis
    proof (cases "Key v \<in> visited")
      case True
      with Inr Cons show ?thesis by simp
    next
      case False
      from Inr have "Key v \<in> vertex_keys g" by (rule Lookup_vertex_keys)
      with False have "card (vertex_keys g - insert (Key v) visited) + 1 = card (vertex_keys g - visited)"
        by (metis DiffI Diff_insert One_nat_def Suc_eq_plus1 card_Suc_Diff1 finite_Diff finite_vertex_keys)
      moreover from Cons.prems Inr False
      have "connect_loop g (insert (Key v) visited) (append_slice connected v) (queue @ [v]) xs =
          Inr (visited', connected', queue')" by simp
      from Cons.IH [OF this] have "card (vertex_keys g - visited') + length queue' =
          card (vertex_keys g - insert (Key v) visited) + length (queue @ [v])" .
      ultimately show ?thesis by simp
    qed
  qed
qed

lemma connect_queue_returns: "connect_queue g visited connected queue \<noteq> None"
proof (induction "card (vertex_keys g - visited) + length queue"
    arbitrary: g visited connected queue rule: less_induct)
  case less
  show ?case
  proof (cases queue)
    case Nil
    then show ?thesis by (subst connect_queue.simps) simp
  next
    case (Cons current queue')
    obtain g' adjacent where ga: "getAdjacent g (Key current) = (g', adjacent)"
      by (cases "getAdjacent g (Key current)")
    then have g': "g' = fst (getAdjacent g (Key current))" by simp
    show ?thesis
    proof (cases "connect_loop g' visited connected queue' (elems (Set_List adjacent))")
      case (Inl err)
      with Cons ga show ?thesis by (subst connect_queue.simps) simp
    next
      case (Inr st)
      obtain visited' connected' queue'' where st: "st = (visited', connected', queue'')"
        by (cases st)
      from connect_loop_measure [OF Inr [unfolded st]]
      have "card (vertex_keys g - visited') + length queue'' < card (vertex_keys g - visited) + length queue"
        by (simp add: g' Cons)
      then have "card (vertex_keys g' - visited') + length queue'' < card (vertex_keys g - visited) + length queue"
        by (simp add: g')
      from less [OF this] have "connect_queue g' visited' connected' queue'' \<noteq> None" .
      with Cons ga Inr st show ?thesis by (subst connect_queue.simps) simp
    qed
  qed
qed

lemma findPath_loop_grows_step:
  assumes call: "\<And>g start path visited g' visited' r.
      findPath n g start key path visited = Some ((g', visited'), r) \<Longrightarrow>
        visited \<subseteq> visited' \<and> vertices g' = vertices g"
    and "findPath_loop n g key path visited xs = Some ((g', visited'), r)"
  shows "visited \<subseteq> visited' \<and> vertices g' = vertices g"
  using assms(2)
proof (induction xs arbitrary: g visited)
  case Nil
  then show ?case by simp
next
  case (Cons x xs)
  show ?case
  proof (cases "Lookup g (GetKey x)")
    case (Inl err)
    with Cons show ?thesis by (auto split: if_splits)
  next
    case (Inr vertex)
    show ?thesis
    proof (cases "Key vertex = key")
      case True
      with Inr Cons.prems show ?thesis by auto
    next
      case False
      with Inr Cons.prems obtain g1 visited1 r1 where
        f: "findPath n g vertex key (path @ [vertex]) visited = Some ((g1, visited1), r1)"
        by (auto split: option.splits)
      from call [OF f] have a: "visited \<subseteq> visited1" "vertices g1 = vertices g" by auto
      show ?thesis
      proof (cases "r1 = Inl ErrPathNotFound")
        case True
        with Inr False f Cons.prems
        have "findPath_loop n g1 key path visited1 xs = Some ((g', visited'), r)" by simp
        from Cons.IH [OF this] a show ?thesis by auto
      next
        case no: False
        with Inr False f Cons.prems have "g' = g1" "visited' = visited1"
          by (auto split: sum.splits if_splits)
        with a show ?thesis by simp
      qed
    qed
  qed
qed

lemma findPath_grows:
  "findPath n g start key path visited = Some ((g', visited'), r) \<Longrightarrow>
     visited \<subseteq> visited' \<and> vertices g' = vertices g"
proof (induction n arbitrary: g start path visited g' visited' r)
  case 0
  then show ?case by simp
next
  case (Suc n)
  show ?case
  proof (cases "Key start \<in> visited")
    case True
    with Suc.prems show ?thesis by auto
  next
    case False
    obtain g1 adjacent where ga: "getAdjacent g (Key start) = (g1, adjacent)"
      by (cases "getAdjacent g (Key start)")
    then have v: "vertices g1 = vertices g" by (metis fst_conv vertices_getAdjacent)
    from Suc.prems False ga
    have "findPath_loop n g1 key path (insert (Key start) visited) (elems (Set_List adjacent)) =
        Some ((g', visited'), r)" by simp
    from findPath_loop_grows_step [OF Suc.IH this] v show ?thesis by auto
  qed
qed

lemma findPath_loop_grows:
  "findPath_loop n g key path visited xs = Some ((g', visited'), r) \<Longrightarrow>
     visited \<subseteq> visited' \<and> vertices g' = vertices g"
  by (rule findPath_loop_grows_step [OF findPath_grows])

lemma vertex_keys_cong: "vertices g' = vertices g \<Longrightarrow> vertex_keys g' = vertex_keys g"
  by (simp add: vertex_keys_def)

lemma findPath_loop_returns_step:
  assumes call: "\<And>g start path visited.
      Key start \<in> vertex_keys g \<Longrightarrow> card (vertex_keys g - visited) < n \<Longrightarrow>
        findPath n g start key path visited \<noteq> None"
    and "card (vertex_keys g - visited) < n"
  shows "findPath_loop n g key path visited xs \<noteq> None"
  using assms(2)
proof (induction xs arbitrary: g visited)
  case Nil
  show ?case by simp
next
  case (Cons x xs)
  show ?case
  proof (cases "Lookup g (GetKey x)")
    case (Inl err)
    with Cons show ?thesis by auto
  next
    case (Inr vertex)
    show ?thesis
    proof (cases "Key vertex = key")
      case True
      with Inr show ?thesis by simp
    next
      case False
      from Inr have "Key vertex \<in> vertex_keys g" by (rule Lookup_vertex_keys)
      from call [OF this Cons.prems] obtain g1 visited1 r1 where
        f: "findPath n g vertex key (path @ [vertex]) visited = Some ((g1, visited1), r1)"
        by (metis not_Some_eq surj_pair)
      from findPath_grows [OF f] have a: "visited \<subseteq> visited1" "vertices g1 = vertices g" by auto
      have "card (vertex_keys g - visited1) \<le> card (vertex_keys g - visited)"
        using a(1) by (intro card_mono) auto
      with Cons.prems vertex_keys_cong [OF a(2)] have "card (vertex_keys g1 - visited1) < n"
        by simp
      from Cons.IH [OF this] have rest: "findPath_loop n g1 key path visited1 xs \<noteq> None" .
      show ?thesis
      proof (cases "r1 = Inl ErrPathNotFound")
        case True
        with Inr False f rest show ?thesis by simp
      next
        case no: False
        with Inr False f show ?thesis by (cases r1) simp_all
      qed
    qed
  qed
qed

lemma findPath_returns:
  "Key start \<in> vertex_keys g \<Longrightarrow> card (vertex_keys g - visited) < n \<Longrightarrow>
     findPath n g start key path visited \<noteq> None"
proof (induction n arbitrary: g start path visited)
  case 0
  then show ?case by simp
next
  case (Suc n)
  show ?case
  proof (cases "Key start \<in> visited")
    case True
    then show ?thesis by simp
  next
    case False
    obtain g1 adjacent where ga: "getAdjacent g (Key start) = (g1, adjacent)"
      by (cases "getAdjacent g (Key start)")
    then have v: "vertex_keys g1 = vertex_keys g" by (metis fst_conv vertex_keys_getAdjacent)
    from False Suc.prems(1)
    have "card (vertex_keys g - insert (Key start) visited) + 1 = card (vertex_keys g - visited)"
      by (metis DiffI Diff_insert One_nat_def Suc_eq_plus1 card_Suc_Diff1 finite_Diff finite_vertex_keys)
    with Suc.prems(2) v have "card (vertex_keys g1 - insert (Key start) visited) < n" by simp
    from findPath_loop_returns_step [OF Suc.IH this] False ga show ?thesis by simp
  qed
qed

lemma card_vertex_keys: "card (vertex_keys g) \<le> length (additions (vertices g))"
  unfolding vertex_keys_def by (metis card_length length_map)

lemma FindPath_returns:
  "length (additions (vertices g)) < depth \<Longrightarrow> FindPath depth g fromKey toKey \<noteq> None"
proof -
  assume d: "length (additions (vertices g)) < depth"
  show ?thesis
  proof (cases "Lookup g fromKey")
    case (Inl err)
    then show ?thesis by (simp add: FindPath_def)
  next
    case (Inr start)
    then have "Key start \<in> vertex_keys g" by (rule Lookup_vertex_keys)
    moreover from d card_vertex_keys [of g] have "card (vertex_keys g - {}) < depth" by simp
    ultimately have "findPath depth g start toKey [start] {} \<noteq> None" by (rule findPath_returns)
    with Inr show ?thesis by (auto simp: FindPath_def split: sum.splits)
  qed
qed

subsection \<open>What FindConnected returns\<close>

lemma Lookup_cong: "vertices g' = vertices g \<Longrightarrow> Lookup g' = Lookup g"
  by (rule ext) (simp add: Lookup_def)

lemma found_cong: "vertices g' = vertices g \<Longrightarrow> found g' = found g"
  using Lookup_cong [of g' g] by (simp add: found_def fun_eq_iff)

lemma found_live:
  "vertex_set (vertices g) \<Longrightarrow> v \<in> set (found g xs) \<Longrightarrow> Lookup g (Key v) = Inr v"
  by (auto simp: set_found dest: Lookup_Key)

lemma found_keys_targets:
  assumes "vertex_set (vertices g)"
  shows "Key ` set (found g (elems (Set_List (adjacent_of g c)))) = set (targets g c)"
proof -
  have "Key ` set (found g xs) = set (filter (live g) (map GetKey xs))" for xs
  proof (induction xs)
    case Nil
    show ?case by simp
  next
    case (Cons x xs)
    show ?case
    proof (cases "Lookup g (GetKey x)")
      case (Inl err)
      with Cons show ?thesis by (simp add: found_Cons live_def)
    next
      case (Inr v)
      with assms have "Key v = GetKey x" by (rule Lookup_Key)
      with Inr Cons show ?thesis by (simp add: found_Cons live_def)
    qed
  qed
  then show ?thesis by (simp add: targets_def)
qed

lemma edge_rel_Image: "edge_rel g `` {a} = set (targets g a)"
  by (auto simp: edge_rel_def)

lemma connect_inv_step:
  assumes vs: "vertex_set (vertices g)"
    and inv: "connect_inv g k0 connected (current # queue)"
    and N: "N = fresh (Key ` set connected) (found g (elems (Set_List (adjacent_of g (Key current)))))"
  shows "connect_inv g k0 (connected @ N) (queue @ N)"
proof -
  let ?E = "edge_rel g"
  let ?V = "Key ` set connected"
  let ?F = "found g (elems (Set_List (adjacent_of g (Key current))))"
  have keysN: "?V \<union> Key ` set N = ?V \<union> ?E `` {Key current}"
    by (simp add: N fresh_keys found_keys_targets [OF vs] edge_rel_Image)
  have disj: "Key ` set N \<inter> ?V = {}" by (simp add: N fresh_disjoint)
  have dN: "distinct (map Key N)" by (simp add: N fresh_distinct)
  have liveN: "\<forall>v\<in>set N. Lookup g (Key v) = Inr v"
    using fresh_subset [of ?V ?F] found_live [OF vs] by (auto simp: N)
  from inv have I: "distinct (map Key connected) \<and>
     (\<forall>v\<in>set connected. Lookup g (Key v) = Inr v) \<and>
     ?V \<subseteq> ?E\<^sup>+ `` {k0} \<and>
     (\<forall>v\<in>set (current # queue). Lookup g (Key v) = Inr v \<and> (Key v = k0 \<or> Key v \<in> ?V)) \<and>
     (\<forall>a\<in>insert k0 ?V. a \<notin> Key ` set (current # queue) \<longrightarrow> ?E `` {a} \<subseteq> ?V)"
    unfolding connect_inv_def .
  note i2 = I [THEN conjunct1]
    and i3 = I [THEN conjunct2, THEN conjunct1]
    and i4 = I [THEN conjunct2, THEN conjunct2, THEN conjunct1]
    and i5 = I [THEN conjunct2, THEN conjunct2, THEN conjunct2, THEN conjunct1]
    and i6 = I [THEN conjunct2, THEN conjunct2, THEN conjunct2, THEN conjunct2]
  have c2: "distinct (map Key (connected @ N))" using i2 dN disj by auto
  have c3: "\<forall>v\<in>set (connected @ N). Lookup g (Key v) = Inr v" using i3 liveN by auto
  have cur: "Key current = k0 \<or> (k0, Key current) \<in> ?E\<^sup>+" using i5 i4 by auto
  have "?E `` {Key current} \<subseteq> ?E\<^sup>+ `` {k0}"
  proof
    fix b assume "b \<in> ?E `` {Key current}"
    then have e: "(Key current, b) \<in> ?E" by simp
    from cur show "b \<in> ?E\<^sup>+ `` {k0}"
    proof
      assume "Key current = k0"
      with e show ?thesis by auto
    next
      assume "(k0, Key current) \<in> ?E\<^sup>+"
      with e show ?thesis by (auto intro: trancl_into_trancl)
    qed
  qed
  with i4 keysN have "?V \<union> Key ` set N \<subseteq> ?E\<^sup>+ `` {k0}" by simp
  then have c4: "Key ` set (connected @ N) \<subseteq> ?E\<^sup>+ `` {k0}" by (simp add: image_Un)
  have c5: "\<forall>v\<in>set (queue @ N). Lookup g (Key v) = Inr v \<and>
      (Key v = k0 \<or> Key v \<in> Key ` set (connected @ N))"
    using i5 liveN by auto
  have c6: "\<forall>a\<in>insert k0 (Key ` set (connected @ N)).
      a \<notin> Key ` set (queue @ N) \<longrightarrow> ?E `` {a} \<subseteq> Key ` set (connected @ N)"
  proof (intro ballI impI)
    fix a assume a: "a \<in> insert k0 (Key ` set (connected @ N))"
      and nq: "a \<notin> Key ` set (queue @ N)"
    from nq have "a \<notin> Key ` set N" and nq': "a \<notin> Key ` set queue" by auto
    with a have old: "a \<in> insert k0 ?V" by auto
    have new: "Key ` set (connected @ N) = ?V \<union> ?E `` {Key current}"
      using keysN by (simp add: image_Un)
    show "?E `` {a} \<subseteq> Key ` set (connected @ N)"
    proof (cases "a = Key current")
      case True
      with new show ?thesis by blast
    next
      case False
      with nq' have "a \<notin> Key ` set (current # queue)" by auto
      with i6 old have "?E `` {a} \<subseteq> ?V" by blast
      with new show ?thesis by blast
    qed
  qed
  show ?thesis unfolding connect_inv_def by (intro conjI c2 c3 c4 c5 c6)
qed

lemma connect_inv_done:
  assumes "connect_inv g k0 connected []"
  shows "Key ` set connected = (edge_rel g)\<^sup>+ `` {k0}"
proof -
  let ?E = "edge_rel g"
  let ?V = "Key ` set connected"
  from assms have i4: "?V \<subseteq> ?E\<^sup>+ `` {k0}"
    and i6: "\<forall>a\<in>insert k0 ?V. ?E `` {a} \<subseteq> ?V"
    by (simp_all add: connect_inv_def)
  have "b \<in> ?V" if "(k0, b) \<in> ?E\<^sup>+" for b
    using that
  proof (induction rule: trancl_induct)
    case (base y)
    with i6 show ?case by blast
  next
    case (step y z)
    with i6 show ?case by blast
  qed
  with i4 show ?thesis by blast
qed

lemma connect_queue_correct:
  assumes vs: "vertex_set (vertices g0)"
  shows "vertices g = vertices g0 \<Longrightarrow> (\<forall>k. adjacent_of g k = adjacent_of g0 k) \<Longrightarrow>
    connect_inv g0 k0 connected queue \<Longrightarrow> visited = Key ` set connected \<Longrightarrow>
    \<exists>g' connected'. connect_queue g visited (Slice connected) queue = Some (g', Inr (Slice connected')) \<and>
      Key ` set connected' = (edge_rel g0)\<^sup>+ `` {k0} \<and> distinct (map Key connected') \<and>
      (\<forall>v\<in>set connected'. Lookup g0 (Key v) = Inr v)"
proof (induction "card (vertex_keys g - visited) + length queue"
    arbitrary: g visited connected queue rule: less_induct)
  case less
  note same = less.prems(1,2) and inv = less.prems(3) and vis = less.prems(4)
  show ?case
  proof (cases queue)
    case Nil
    with inv have "Key ` set connected = (edge_rel g0)\<^sup>+ `` {k0}" by (simp add: connect_inv_done)
    moreover from inv have "distinct (map Key connected)"
      "\<forall>v\<in>set connected. Lookup g0 (Key v) = Inr v" by (simp_all add: connect_inv_def)
    ultimately show ?thesis using Nil by (subst connect_queue.simps) simp
  next
    case (Cons current queue')
    define g1 where "g1 = fst (getAdjacent g (Key current))"
    define xs where "xs = elems (Set_List (adjacent_of g0 (Key current)))"
    define N where "N = fresh visited (found g0 xs)"
    have ga: "getAdjacent g (Key current) = (g1, adjacent_of g0 (Key current))"
      using same(2) by (simp add: g1_def adjacent_of_def prod_eq_iff)
    have v1: "vertices g1 = vertices g0" using same(1) by (simp add: g1_def)
    have a1: "\<forall>k. adjacent_of g1 k = adjacent_of g0 k" using same(2) by (simp add: g1_def)
    have vs1: "vertex_set (vertices g1)" using vs v1 by simp
    have loop: "connect_loop g1 visited (Slice connected) queue' xs =
        Inr (visited \<union> Key ` set N, Slice (connected @ N), queue' @ N)"
      by (simp add: connect_loop_closed [OF vs1] N_def found_cong [OF v1])
    from connect_loop_measure [OF loop]
    have less: "card (vertex_keys g1 - (visited \<union> Key ` set N)) + length (queue' @ N) <
        card (vertex_keys g - visited) + length queue"
      by (simp add: g1_def Cons)
    from inv have inv1: "connect_inv g0 k0 (connected @ N) (queue' @ N)"
      unfolding Cons by (rule connect_inv_step [OF vs]) (simp add: N_def xs_def vis)
    have vis1: "visited \<union> Key ` set N = Key ` set (connected @ N)"
      by (simp add: vis image_Un)
    have "\<exists>g' connected'.
        connect_queue g1 (visited \<union> Key ` set N) (Slice (connected @ N)) (queue' @ N) =
          Some (g', Inr (Slice connected')) \<and>
        Key ` set connected' = (edge_rel g0)\<^sup>+ `` {k0} \<and> distinct (map Key connected') \<and>
        (\<forall>v\<in>set connected'. Lookup g0 (Key v) = Inr v)"
      by (rule less.hyps [OF less v1 a1 inv1 vis1])
    moreover have "connect_queue g visited (Slice connected) queue =
        connect_queue g1 (visited \<union> Key ` set N) (Slice (connected @ N)) (queue' @ N)"
      by (subst connect_queue.simps) (simp add: Cons ga loop [unfolded xs_def])
    ultimately show ?thesis by simp
  qed
qed

lemma FindConnected_reaches:
  assumes "vertex_set (vertices g)" and "Lookup g key = Inr start"
  shows "\<exists>g' connected. FindConnected g key = Some (g', Inr (Slice connected)) \<and>
      Key ` set connected = (edge_rel g)\<^sup>+ `` {key} \<and> distinct (map Key connected) \<and>
      (\<forall>v\<in>set connected. Lookup g (Key v) = Inr v)"
proof -
  from assms have k: "Key start = key" by (rule Lookup_Key)
  with assms(2) have "connect_inv g key [] [start]" by (simp add: connect_inv_def)
  from connect_queue_correct [OF assms(1) refl _ this, of "{}"] assms(2)
  show ?thesis by (simp add: FindConnected_def)
qed

subsection \<open>What FindPath returns\<close>

lemma findPath_loop_reads_step:
  assumes call: "\<And>g start path visited g' visited' r.
      findPath n g start key path visited = Some ((g', visited'), r) \<Longrightarrow>
        (\<forall>k. adjacent_of g' k = adjacent_of g k)"
    and "findPath_loop n g key path visited xs = Some ((g', visited'), r)"
  shows "\<forall>k. adjacent_of g' k = adjacent_of g k"
  using assms(2)
proof (induction xs arbitrary: g visited)
  case Nil
  then show ?case by simp
next
  case (Cons x xs)
  show ?case
  proof (cases "Lookup g (GetKey x)")
    case (Inl err)
    with Cons show ?thesis by (auto split: if_splits)
  next
    case (Inr vertex)
    show ?thesis
    proof (cases "Key vertex = key")
      case True
      with Inr Cons.prems show ?thesis by auto
    next
      case False
      with Inr Cons.prems obtain g1 visited1 r1 where
        f: "findPath n g vertex key (path @ [vertex]) visited = Some ((g1, visited1), r1)"
        by (auto split: option.splits)
      from call [OF f] have a: "\<forall>k. adjacent_of g1 k = adjacent_of g k" .
      show ?thesis
      proof (cases "r1 = Inl ErrPathNotFound")
        case True
        with Inr False f Cons.prems
        have "findPath_loop n g1 key path visited1 xs = Some ((g', visited'), r)" by simp
        from Cons.IH [OF this] a show ?thesis by simp
      next
        case no: False
        with Inr False f Cons.prems have "g' = g1"
          by (cases r1) (auto split: if_splits)
        with a show ?thesis by simp
      qed
    qed
  qed
qed

lemma findPath_reads:
  "findPath n g start key path visited = Some ((g', visited'), r) \<Longrightarrow>
     (\<forall>k. adjacent_of g' k = adjacent_of g k)"
proof (induction n arbitrary: g start path visited g' visited' r)
  case 0
  then show ?case by simp
next
  case (Suc n)
  show ?case
  proof (cases "Key start \<in> visited")
    case True
    with Suc.prems show ?thesis by auto
  next
    case False
    obtain g1 adjacent where ga: "getAdjacent g (Key start) = (g1, adjacent)"
      by (cases "getAdjacent g (Key start)")
    then have v: "\<forall>k. adjacent_of g1 k = adjacent_of g k"
      by (metis adjacent_of_getAdjacent fst_conv)
    from Suc.prems False ga
    have "findPath_loop n g1 key path (insert (Key start) visited) (elems (Set_List adjacent)) =
        Some ((g', visited'), r)" by simp
    from findPath_loop_reads_step [OF Suc.IH this] v show ?thesis by simp
  qed
qed

lemma follows_snoc:
  "path \<noteq> [] \<Longrightarrow> follows g path \<Longrightarrow> Key b \<in> set (targets g (Key (last path))) \<Longrightarrow>
     Lookup g (Key b) = Inr b \<Longrightarrow> follows g (path @ [b])"
  by (induction g path rule: follows.induct) auto

lemma follows_trancl:
  "follows g p \<Longrightarrow> 2 \<le> length p \<Longrightarrow> (Key (hd p), Key (last p)) \<in> (edge_rel g)\<^sup>+"
proof (induction g p rule: follows.induct)
  case (1 g)
  then show ?case by simp
next
  case (2 g v)
  then show ?case by simp
next
  case (3 g a b path)
  from 3(2) have e: "(Key a, Key b) \<in> edge_rel g" by (simp add: edge_rel_def)
  show ?case
  proof (cases path)
    case Nil
    with e show ?thesis by auto
  next
    case (Cons c rest)
    with 3 have "(Key b, Key (last (b # path))) \<in> (edge_rel g)\<^sup>+" by simp
    with e show ?thesis by (simp add: trancl_into_trancl2)
  qed
qed

lemma sound_snoc: "sound g key (path @ [b]) p \<Longrightarrow> sound g key path p"
  by (auto simp: sound_def)

lemma findPath_loop_sound_step:
  assumes vs: "vertex_set (vertices g0)"
    and call: "\<And>g start path visited g' visited' p.
      vertices g = vertices g0 \<Longrightarrow> (\<forall>k. adjacent_of g k = adjacent_of g0 k) \<Longrightarrow>
      path \<noteq> [] \<Longrightarrow> last path = start \<Longrightarrow> follows g0 path \<Longrightarrow>
      findPath n g start key path visited = Some ((g', visited'), Inr p) \<Longrightarrow>
        sound g0 key path p"
    and path: "path \<noteq> []" "follows g0 path"
  shows "vertices g = vertices g0 \<Longrightarrow> (\<forall>k. adjacent_of g k = adjacent_of g0 k) \<Longrightarrow>
    set xs \<subseteq> set (elems (Set_List (adjacent_of g0 (Key (last path))))) \<Longrightarrow>
    findPath_loop n g key path visited xs = Some ((g', visited'), Inr p) \<Longrightarrow>
    sound g0 key path p"
proof (induction xs arbitrary: g visited)
  case Nil
  then show ?case by simp
next
  case (Cons x xs)
  note same = Cons.prems(1,2)
  from same(1) have L: "Lookup g = Lookup g0" by (rule Lookup_cong)
  from Cons.prems(3) have sub: "set xs \<subseteq> set (elems (Set_List (adjacent_of g0 (Key (last path)))))"
    and x: "x \<in> set (elems (Set_List (adjacent_of g0 (Key (last path)))))" by auto
  show ?case
  proof (cases "Lookup g0 (GetKey x)")
    case (Inl err)
    with Cons.prems(4) L have "findPath_loop n g key path visited xs = Some ((g', visited'), Inr p)"
      by (auto split: if_splits)
    from Cons.IH [OF same sub this] show ?thesis .
  next
    case (Inr vertex)
    with vs have k: "Key vertex = GetKey x" by (rule Lookup_Key)
    from Inr have "live g0 (GetKey x)" by (simp add: live_def)
    with x k have t: "Key vertex \<in> set (targets g0 (Key (last path)))"
      by (auto simp: targets_def)
    from Inr k have lv: "Lookup g0 (Key vertex) = Inr vertex" by simp
    from follows_snoc [OF path t lv] have f: "follows g0 (path @ [vertex])" .
    show ?thesis
    proof (cases "Key vertex = key")
      case True
      with Inr L Cons.prems(4) have "p = path @ [vertex]" by simp
      with f lv True show ?thesis by (simp add: sound_def)
    next
      case False
      with Inr L Cons.prems(4) obtain g1 visited1 r1 where
        c: "findPath n g vertex key (path @ [vertex]) visited = Some ((g1, visited1), r1)"
        by (auto split: option.splits)
      show ?thesis
      proof (cases r1)
        case (Inl err)
        with Inr L False c Cons.prems(4)
        have "findPath_loop n g1 key path visited1 xs = Some ((g', visited'), Inr p)"
          by (auto split: if_splits)
        moreover from findPath_grows [OF c] same have "vertices g1 = vertices g0" by simp
        moreover from findPath_reads [OF c] same have "\<forall>k. adjacent_of g1 k = adjacent_of g0 k"
          by simp
        ultimately show ?thesis using sub by (intro Cons.IH) auto
      next
        case r: (Inr p1)
        with Inr L False c Cons.prems(4) have "p1 = p" by simp
        with c r have "findPath n g vertex key (path @ [vertex]) visited = Some ((g1, visited1), Inr p)"
          by simp
        from call [OF same _ _ f this] have "sound g0 key (path @ [vertex]) p" by simp
        then show ?thesis by (rule sound_snoc)
      qed
    qed
  qed
qed

lemma findPath_sound:
  assumes vs: "vertex_set (vertices g0)"
  shows "vertices g = vertices g0 \<Longrightarrow> (\<forall>k. adjacent_of g k = adjacent_of g0 k) \<Longrightarrow>
      path \<noteq> [] \<Longrightarrow> last path = start \<Longrightarrow> follows g0 path \<Longrightarrow>
      findPath n g start key path visited = Some ((g', visited'), Inr p) \<Longrightarrow>
        sound g0 key path p"
proof (induction n arbitrary: g start path visited g' visited' p)
  case 0
  then show ?case by simp
next
  case (Suc n)
  note same = Suc.prems(1,2)
  show ?case
  proof (cases "Key start \<in> visited")
    case True
    with Suc.prems show ?thesis by auto
  next
    case False
    define g1 where "g1 = fst (getAdjacent g (Key start))"
    have ga: "getAdjacent g (Key start) = (g1, adjacent_of g0 (Key start))"
      using same(2) by (simp add: g1_def adjacent_of_def prod_eq_iff)
    have v1: "vertices g1 = vertices g0" using same(1) by (simp add: g1_def)
    have a1: "\<forall>k. adjacent_of g1 k = adjacent_of g0 k" using same(2) by (simp add: g1_def)
    from Suc.prems(6) False ga
    have l: "findPath_loop n g1 key path (insert (Key start) visited)
        (elems (Set_List (adjacent_of g0 (Key start)))) = Some ((g', visited'), Inr p)" by simp
    show ?thesis
      by (rule findPath_loop_sound_step [OF vs Suc.IH Suc.prems(3) Suc.prems(5) v1 a1 _ l])
        (simp_all add: Suc.prems(4))
  qed
qed

lemma findPath_loop_error_step:
  assumes vs: "vertex_set (vertices (g0::Graph))"
    and call: "\<And>g start path visited st e.
      vertices g = vertices g0 \<Longrightarrow>
      findPath n g start key path visited = Some (st, Inl e) \<Longrightarrow> e = ErrPathNotFound"
  shows "vertices g = vertices g0 \<Longrightarrow>
    findPath_loop n g key path visited xs = Some (st, Inl e) \<Longrightarrow> e = ErrPathNotFound"
proof (induction xs arbitrary: g visited)
  case Nil
  then show ?case by simp
next
  case (Cons x xs)
  from Cons.prems(1) have L: "Lookup g = Lookup g0" by (rule Lookup_cong)
  show ?case
  proof (cases "Lookup g0 (GetKey x)")
    case (Inl err)
    with vs have "err = ErrVertexNotFound" by (rule Lookup_Inl)
    with Inl L Cons.prems(2) have "findPath_loop n g key path visited xs = Some (st, Inl e)"
      by simp
    from Cons.IH [OF Cons.prems(1) this] show ?thesis .
  next
    case (Inr vertex)
    show ?thesis
    proof (cases "Key vertex = key")
      case True
      with Inr L Cons.prems(2) show ?thesis by simp
    next
      case False
      with Inr L Cons.prems(2) obtain g1 visited1 r1 where
        c: "findPath n g vertex key (path @ [vertex]) visited = Some ((g1, visited1), r1)"
        by (auto split: option.splits)
      from findPath_grows [OF c] Cons.prems(1) have v1: "vertices g1 = vertices g0" by simp
      show ?thesis
      proof (cases r1)
        case (Inl err)
        from call [OF Cons.prems(1) c [unfolded Inl]] have "err = ErrPathNotFound" .
        with Inl Inr L False c Cons.prems(2)
        have "findPath_loop n g1 key path visited1 xs = Some (st, Inl e)" by simp
        from Cons.IH [OF v1 this] show ?thesis .
      next
        case r: (Inr p1)
        with Inr L False c Cons.prems(2) show ?thesis by simp
      qed
    qed
  qed
qed

lemma findPath_error:
  assumes vs: "vertex_set (vertices (g0::Graph))"
  shows "vertices g = vertices g0 \<Longrightarrow>
      findPath n g start key path visited = Some (st, Inl e) \<Longrightarrow> e = ErrPathNotFound"
proof (induction n arbitrary: g start path visited st e)
  case 0
  then show ?case by simp
next
  case (Suc n)
  show ?case
  proof (cases "Key start \<in> visited")
    case True
    with Suc.prems show ?thesis by auto
  next
    case False
    obtain g1 adjacent where ga: "getAdjacent g (Key start) = (g1, adjacent)"
      by (cases "getAdjacent g (Key start)")
    then have "vertices g1 = vertices g" by (metis fst_conv vertices_getAdjacent)
    with Suc.prems(1) have v1: "vertices g1 = vertices g0" by simp
    from Suc.prems(2) False ga
    have l: "findPath_loop n g1 key path (insert (Key start) visited) (elems (Set_List adjacent)) =
        Some (st, Inl e)" by simp
    show ?thesis by (rule findPath_loop_error_step [OF vs Suc.IH v1 l])
  qed
qed

lemma findPath_loop_deeper_step:
  assumes call: "\<And>g start path visited res.
      findPath n g start key path visited = Some res \<Longrightarrow>
        findPath (Suc n) g start key path visited = Some res"
  shows "findPath_loop n g key path visited xs = Some res \<Longrightarrow>
    findPath_loop (Suc n) g key path visited xs = Some res"
proof (induction xs arbitrary: g visited)
  case Nil
  then show ?case by simp
next
  case (Cons x xs)
  show ?case
  proof (cases "Lookup g (GetKey x)")
    case (Inl err)
    with Cons show ?thesis by (auto split: if_splits)
  next
    case (Inr vertex)
    show ?thesis
    proof (cases "Key vertex = key")
      case True
      with Inr Cons.prems show ?thesis by simp
    next
      case False
      with Inr Cons.prems obtain g1 visited1 r1 where
        c: "findPath n g vertex key (path @ [vertex]) visited = Some ((g1, visited1), r1)"
        by (auto split: option.splits)
      from call [OF c]
      have c': "findPath (Suc n) g vertex key (path @ [vertex]) visited = Some ((g1, visited1), r1)" .
      show ?thesis
      proof (cases "r1 = Inl ErrPathNotFound")
        case True
        with Inr False c Cons.prems
        have "findPath_loop n g1 key path visited1 xs = Some res" by simp
        from Cons.IH [OF this] Inr False c' True show ?thesis
          by (simp del: findPath.simps)
      next
        case no: False
        with Inr False c Cons.prems have "res = ((g1, visited1), r1)"
          by (cases r1) (auto split: if_splits)
        with Inr False c' no show ?thesis
          by (cases r1) (simp_all del: findPath.simps)
      qed
    qed
  qed
qed

lemma findPath_deeper:
  "findPath n g start key path visited = Some res \<Longrightarrow>
     findPath (Suc n) g start key path visited = Some res"
proof (induction n arbitrary: g start path visited res)
  case 0
  then show ?case by simp
next
  case (Suc n)
  show ?case
  proof (cases "Key start \<in> visited")
    case True
    with Suc.prems show ?thesis by simp
  next
    case False
    obtain g1 adjacent where ga: "getAdjacent g (Key start) = (g1, adjacent)"
      by (cases "getAdjacent g (Key start)")
    from Suc.prems False ga
    have "findPath_loop n g1 key path (insert (Key start) visited) (elems (Set_List adjacent)) =
        Some res" by simp
    from findPath_loop_deeper_step [OF Suc.IH this] False ga show ?thesis
      by (simp del: findPath_loop.simps)
  qed
qed

lemma FindPath_deeper:
  "depth \<le> depth' \<Longrightarrow> FindPath depth g fromKey toKey = Some res \<Longrightarrow>
     FindPath depth' g fromKey toKey = Some res"
proof (induction rule: dec_induct)
  case base
  then show ?case by simp
next
  case (step m)
  from step.IH [OF step.prems] have m: "FindPath m g fromKey toKey = Some res" .
  show ?case
  proof (cases "Lookup g fromKey")
    case (Inl err)
    with m show ?thesis by (simp add: FindPath_def)
  next
    case start: (Inr start)
    show ?thesis
    proof (cases "Lookup g toKey")
      case (Inl err)
      with m start show ?thesis by (simp add: FindPath_def)
    next
      case (Inr t)
      with m start obtain st where f: "findPath m g start toKey [start] {} = Some st"
        by (auto simp: FindPath_def split: option.splits)
      from findPath_deeper [OF f] f m start Inr show ?thesis
        by (simp add: FindPath_def del: findPath.simps)
    qed
  qed
qed

lemma FindPath_sound:
  assumes vs: "vertex_set (vertices g)"
    and r: "FindPath depth g fromKey toKey = Some (g', Inr path)"
  shows "2 \<le> length path \<and> Lookup g fromKey = Inr (hd path) \<and>
    Lookup g toKey = Inr (last path) \<and> follows g path"
proof -
  from r obtain start visited where s: "Lookup g fromKey = Inr start"
    and f: "findPath depth g start toKey [start] {} = Some ((g', visited), Inr path)"
    by (auto simp: FindPath_def split: sum.splits option.splits)
  have "sound g toKey [start] path"
    by (rule findPath_sound [OF vs refl _ _ _ _ f]) simp_all
  then obtain q where "path = start # q" "q \<noteq> []" "follows g path" "Lookup g toKey = Inr (last path)"
    by (auto simp: sound_def)
  with s show ?thesis by (cases q) auto
qed

lemma FindPath_no_path:
  assumes vs: "vertex_set (vertices g)"
    and l: "live g fromKey" "live g toKey"
    and n: "(fromKey, toKey) \<notin> (edge_rel g)\<^sup>+"
    and d: "length (additions (vertices g)) < depth"
  shows "map_option snd (FindPath depth g fromKey toKey) = Some (Inl ErrPathNotFound)"
proof -
  from FindPath_returns [OF d] obtain g' r where r: "FindPath depth g fromKey toKey = Some (g', r)"
    by (metis not_Some_eq surj_pair)
  show ?thesis
  proof (cases r)
    case (Inl e)
    from l obtain start t where s: "Lookup g fromKey = Inr start" "Lookup g toKey = Inr t"
      by (auto simp: live_iff)
    with r Inl obtain st where "findPath depth g start toKey [start] {} = Some (st, Inl e)"
      by (auto simp: FindPath_def split: option.splits)
    from findPath_error [OF vs refl this] r Inl show ?thesis by simp
  next
    case (Inr path)
    from FindPath_sound [OF vs r [unfolded Inr]]
    have p: "2 \<le> length path" "Lookup g fromKey = Inr (hd path)"
      "Lookup g toKey = Inr (last path)" "follows g path" by auto
    from follows_trancl [OF p(4) p(1)] Lookup_Key [OF vs p(2)] Lookup_Key [OF vs p(3)] n
    show ?thesis by simp
  qed
qed

lemma FindPath_self_loop:
  assumes vs: "vertex_set (vertices g)"
    and l: "Lookup g key = Inr v"
    and a: "map GetKey (elems (Set_List (adjacent_of g key))) = [key]"
    and d: "0 < depth"
  shows "map_option snd (FindPath depth g key key) = Some (Inr [v, v])"
proof -
  from d obtain n where n: "depth = Suc n" by (cases depth) auto
  from a obtain x where x: "elems (Set_List (adjacent_of g key)) = [x]" "GetKey x = key"
    by (cases "elems (Set_List (adjacent_of g key))") auto
  from vs l have k: "Key v = key" by (rule Lookup_Key)
  obtain g1 where ga: "getAdjacent g key = (g1, adjacent_of g key)"
    by (simp add: adjacent_of_def prod_eq_iff)
  then have "Lookup g1 = Lookup g" by (metis Lookup_getAdjacent fst_conv)
  with l x k ga show ?thesis
    by (simp add: FindPath_def n)
qed

subsection \<open>What List returns\<close>

lemma elems_Set_List:
  "elems (Set_List s) = map Element (filter (\<lambda>rec. \<not> removed s rec) (map snd (additions s)))"
  by (simp add: Set_List_eq)

lemma listed_iff:
  assumes "keyed s"
  shows "e \<in> set (elems (Set_List s)) \<longleftrightarrow> Contains s (GetKey e) = Inr e"
proof
  assume "e \<in> set (elems (Set_List s))"
  then obtain key rec where m: "(key, rec) \<in> set (additions s)" and r: "\<not> removed s rec"
    and e: "e = Element rec"
    by (auto simp: elems_Set_List)
  from assms m have "GetKey (Element rec) = key" by (auto simp: keyed_def list_all_iff)
  moreover from assms m have "map_of (additions s) key = Some rec" by (simp add: keyed_def)
  ultimately show "Contains s (GetKey e) = Inr e" using r e by (simp add: Contains_def)
next
  assume "Contains s (GetKey e) = Inr e"
  then obtain rec where "map_of (additions s) (GetKey e) = Some rec" "e = Element rec"
    "\<not> removed s rec" by (auto simp: Contains_Inr_iff)
  moreover then have "(GetKey e, rec) \<in> set (additions s)" by (auto dest: map_of_SomeD)
  ultimately show "e \<in> set (elems (Set_List s))" by (force simp: elems_Set_List)
qed

lemma listed_keys:
  assumes "keyed s"
  shows "map GetKey (elems (Set_List s)) =
    map fst (filter (\<lambda>(key, rec). \<not> removed s rec) (additions s))"
proof -
  have "list_all (\<lambda>(key, rec). GetKey (Element rec) = key) xs \<Longrightarrow>
      map GetKey (map Element (filter (\<lambda>rec. \<not> removed s rec) (map snd xs))) =
      map fst (filter (\<lambda>(key, rec). \<not> removed s rec) xs)" for xs
    by (induction xs) auto
  with assms show ?thesis by (simp add: elems_Set_List keyed_def)
qed

lemma listed_keys_distinct: "keyed s \<Longrightarrow> distinct (map GetKey (elems (Set_List s)))"
  by (simp add: listed_keys keyed_def distinct_map_filter)

lemma listed_vertex:
  assumes "vertex_set (vertices g)" and "x \<in> set (elems (Set_List (vertices g)))"
  shows "\<exists>v. x = VertexElement v \<and> Lookup g (GetKey x) = Inr v"
proof -
  from assms have k: "keyed (vertices g)" by (simp add: vertex_set_def)
  from assms(2) have c: "Contains (vertices g) (GetKey x) = Inr x" by (simp add: listed_iff [OF k])
  then obtain rec where "map_of (additions (vertices g)) (GetKey x) = Some rec" "x = Element rec"
    by (auto simp: Contains_Inr_iff)
  with assms(1) obtain v where "x = VertexElement v" by (auto dest: vertex_set_map_of)
  with c show ?thesis by (simp add: Lookup_Inr_iff)
qed

lemma found_listed:
  assumes "vertex_set (vertices g)"
  shows "set xs \<subseteq> set (elems (Set_List (vertices g))) \<Longrightarrow> map VertexElement (found g xs) = xs"
proof (induction xs)
  case Nil
  show ?case by simp
next
  case (Cons x xs)
  then have "x \<in> set (elems (Set_List (vertices g)))" by simp
  from listed_vertex [OF assms this] obtain v where "x = VertexElement v"
    "Lookup g (GetKey x) = Inr v" by auto
  with Cons show ?case by (simp add: found_Cons)
qed

lemma list_loop_closed:
  "vertices g = vertices g0 \<Longrightarrow> (\<forall>k. adjacent_of g k = adjacent_of g0 k) \<Longrightarrow>
   (\<forall>x\<in>set xs. \<exists>v. Lookup g0 (GetKey x) = Inr v) \<Longrightarrow>
   snd (list_loop g (Slice acc) xs) = Inr (Slice (acc @ map (entry g0) (found g0 xs)))"
proof (induction xs arbitrary: g acc)
  case Nil
  show ?case by simp
next
  case (Cons x xs)
  from Cons.prems(1) have L: "Lookup g = Lookup g0" by (rule Lookup_cong)
  from Cons.prems(3) obtain v where v: "Lookup g0 (GetKey x) = Inr v" by auto
  define g1 where "g1 = fst (getAdjacent g (Key v))"
  have ga: "getAdjacent g (Key v) = (g1, adjacent_of g0 (Key v))"
    using Cons.prems(2) by (simp add: g1_def adjacent_of_def prod_eq_iff)
  have v1: "vertices g1 = vertices g0" using Cons.prems(1) by (simp add: g1_def)
  have a1: "\<forall>k. adjacent_of g1 k = adjacent_of g0 k" using Cons.prems(2) by (simp add: g1_def)
  from Cons.prems(3) have rest: "\<forall>x\<in>set xs. \<exists>v. Lookup g0 (GetKey x) = Inr v" by simp
  from Cons.IH [OF v1 a1 rest, of "acc @ [entry g0 v]"] v L ga show ?case
    by (simp add: found_Cons entry_def)
qed

lemma Graph_List_closed:
  assumes "vertex_set (vertices g)"
  shows "snd (Graph_List g) =
    Inr (Slice (map (entry g) (found g (sort_key GetKey (elems (Set_List (vertices g)))))))"
proof -
  have "\<forall>x\<in>set (sort_key GetKey (elems (Set_List (vertices g)))). \<exists>v. Lookup g (GetKey x) = Inr v"
    using listed_vertex [OF assms] by auto
  from list_loop_closed [of g g _ "[]", OF refl _ this] show ?thesis by (simp add: Graph_List_def)
qed

lemma listed_vertices:
  assumes vs: "vertex_set (vertices g)"
    and vl: "vl = found g (sort_key GetKey (elems (Set_List (vertices g))))"
  shows "sorted (map Key vl) \<and> distinct (map Key vl) \<and> set vl = {v. Lookup g (Key v) = Inr v}"
proof -
  let ?xs = "sort_key GetKey (elems (Set_List (vertices g)))"
  from vs have k: "keyed (vertices g)" by (simp add: vertex_set_def)
  have x: "map VertexElement vl = ?xs" unfolding vl by (rule found_listed [OF vs]) simp
  have "map Key vl = map GetKey (map VertexElement vl)" by simp
  also have "\<dots> = map GetKey ?xs" by (simp only: x)
  finally have keys: "map Key vl = map GetKey ?xs" .
  have s: "sorted (map Key vl)" unfolding keys by (rule sorted_sort_key)
  have "mset (map GetKey ?xs) = mset (map GetKey (elems (Set_List (vertices g))))" by simp
  then have "distinct (map GetKey ?xs)"
    using listed_keys_distinct [OF k] by (metis mset_eq_imp_distinct_iff)
  then have d: "distinct (map Key vl)" by (simp add: keys)
  have "v \<in> set vl \<longleftrightarrow> Lookup g (Key v) = Inr v" for v
  proof -
    have "v \<in> set vl \<longleftrightarrow> VertexElement v \<in> set (map VertexElement vl)" by auto
    also have "\<dots> \<longleftrightarrow> VertexElement v \<in> set (elems (Set_List (vertices g)))" by (simp only: x) simp
    also have "\<dots> \<longleftrightarrow> Contains (vertices g) (Key v) = Inr (VertexElement v)"
      by (simp add: listed_iff [OF k])
    finally show ?thesis by (simp add: Lookup_Inr_iff)
  qed
  with s d show ?thesis by auto
qed

lemma removed_same: "map_of (removals s) = map_of (removals s') \<Longrightarrow> removed s = removed s'"
  by (rule ext) (simp add: removed_def comma_ok_def)

lemma Contains_same:
  assumes "registers s = registers s'"
  shows "Contains s = Contains s'"
proof -
  from assms have m: "map_of (additions s) = map_of (additions s')"
    and r: "map_of (removals s) = map_of (removals s')" by (simp_all add: registers_def)
  from removed_same [OF r] m show ?thesis
    by (intro ext) (simp add: Contains_def split: option.splits)
qed

lemma Lookup_same:
  assumes "registers (vertices g) = registers (vertices g')"
  shows "Lookup g = Lookup g'"
  by (intro ext) (simp add: Lookup_def Contains_same [OF assms])

lemma Set_List_mset:
  assumes "keyed s" and "keyed s'" and "registers s = registers s'"
  shows "mset (elems (Set_List s)) = mset (elems (Set_List s'))"
proof -
  from assms have d: "distinct (map fst (additions s))" "distinct (map fst (additions s'))"
    and m: "map_of (additions s) = map_of (additions s')"
    and r: "map_of (removals s) = map_of (removals s')"
    by (simp_all add: keyed_def registers_def)
  from d m have "set (additions s) = set (additions s')" by (simp add: map_of_inject_set)
  moreover from d have "distinct (additions s)" "distinct (additions s')"
    by (simp_all add: distinct_map [THEN iffD1, THEN conjunct1])
  ultimately have e: "mset (additions s) = mset (additions s')"
    by (simp only: set_eq_iff_mset_eq_distinct)
  have l: "mset (map Element (filter p (map snd xs))) =
      image_mset Element (filter_mset p (image_mset snd (mset xs)))" for p xs
    by (simp only: mset_map mset_filter)
  have "mset (map Element (filter (\<lambda>rec. \<not> removed s rec) (map snd (additions s)))) =
      mset (map Element (filter (\<lambda>rec. \<not> removed s rec) (map snd (additions s'))))"
    by (simp only: l e)
  then show ?thesis by (simp only: elems_Set_List removed_same [OF r])
qed

lemma keyed_NewSet [simp]: "keyed NewSet"
  by (simp add: keyed_def NewSet_def)

lemma keyed_adjacent_of: "wf_Graph g \<Longrightarrow> keyed (adjacent_of g key)"
  by (auto simp: adjacent_of_alt wf_Graph_def adjacent_set_def list_all_iff
      split: option.splits dest!: map_of_SomeD)

lemma entry_same:
  assumes "wf_Graph g" and "wf_Graph g'"
    and "registers (adjacent_of g (Key v)) = registers (adjacent_of g' (Key v))"
  shows "entry g v = entry g' v"
proof -
  let ?l = "elems (Set_List (adjacent_of g (Key v)))"
  let ?l' = "elems (Set_List (adjacent_of g' (Key v)))"
  from assms have "mset ?l = mset ?l'" by (intro Set_List_mset keyed_adjacent_of)
  then have "mset (map GetKey ?l) = mset (map GetKey ?l')" by simp
  then have "sort (map GetKey ?l) = sort (map GetKey ?l')"
    by (intro properties_for_sort) simp_all
  then show ?thesis by (simp add: entry_def)
qed

lemma Graph_List_same:
  assumes w: "wf_Graph g" "wf_Graph g'" and s: "same_registers g g'"
  shows "snd (Graph_List g') = snd (Graph_List g)"
proof -
  let ?xs = "elems (Set_List (vertices g))"
  let ?xs' = "elems (Set_List (vertices g'))"
  from w have vs: "vertex_set (vertices g)" "vertex_set (vertices g')" by (simp_all add: wf_Graph_def)
  then have k: "keyed (vertices g)" "keyed (vertices g')" by (simp_all add: vertex_set_def)
  from s have r: "registers (vertices g) = registers (vertices g')"
    and a: "\<And>key. registers (adjacent_of g key) = registers (adjacent_of g' key)"
    by (simp_all add: same_registers_def)
  from Set_List_mset [OF k r] have "mset ?xs = mset (sort_key GetKey ?xs')" by simp
  moreover from listed_keys_distinct [OF k(1)] have "inj_on GetKey (set ?xs)"
    by (simp add: distinct_map)
  ultimately have "sort_key GetKey ?xs = sort_key GetKey ?xs'"
    by (rule sort_key_inj_key_eq) simp
  moreover from Lookup_same [OF r] have "found g = found g'"
    by (intro ext) (simp add: found_def)
  moreover have "entry g = entry g'" using entry_same [OF w a] by (simp add: fun_eq_iff)
  ultimately show ?thesis by (simp add: Graph_List_closed [OF vs(1)] Graph_List_closed [OF vs(2)])
qed

lemma map_of_rev_distinct:
  assumes "distinct (map fst xs)"
  shows "map_of (rev xs) = map_of xs"
proof -
  from assms have "distinct (map fst (rev xs))" by (metis distinct_rev rev_map)
  from map_of_inject_set [OF this assms] show ?thesis by simp
qed

lemma reversed_same:
  assumes "wf_Graph g"
  shows "wf_Graph (reversed g) \<and> same_registers g (reversed g)"
proof -
  from assms have d: "distinct (map fst (additions (vertices g)))"
    "distinct (map fst (removals (vertices g)))" "distinct (map fst (edges g))"
    by (simp_all add: wf_Graph_def vertex_set_def keyed_def)
  from assms have "wf_Graph (reversed g)"
    by (simp add: wf_Graph_def vertex_set_def keyed_def reversed_def) (metis distinct_rev rev_map)
  moreover from d have "same_registers g (reversed g)"
    by (simp add: same_registers_def registers_def reversed_def adjacent_of_alt map_of_rev_distinct)
  ultimately show ?thesis by simp
qed

lemma connect_loop_slice:
  "connect_loop g visited (Slice c) queue xs = Inr (visited', connected', queue') \<Longrightarrow>
     \<exists>c'. connected' = Slice c'"
proof (induction xs arbitrary: visited c queue)
  case Nil
  then show ?case by auto
next
  case (Cons x xs)
  show ?case
  proof (cases "Lookup g (GetKey x)")
    case (Inl err)
    with Cons show ?thesis by (auto split: if_splits)
  next
    case (Inr v)
    show ?thesis
    proof (cases "Key v \<in> visited")
      case True
      with Inr Cons show ?thesis by simp
    next
      case False
      with Inr Cons.prems
      have "connect_loop g (insert (Key v) visited) (Slice (c @ [v])) (queue @ [v]) xs =
          Inr (visited', connected', queue')" by simp
      then show ?thesis by (rule Cons.IH)
    qed
  qed
qed

lemma connect_queue_slice:
  "connect_queue g visited (Slice c) queue = Some (g', Inr connected') \<Longrightarrow>
     \<exists>c'. connected' = Slice c'"
proof (induction "card (vertex_keys g - visited) + length queue"
    arbitrary: g visited c queue rule: less_induct)
  case less
  show ?case
  proof (cases queue)
    case Nil
    with less.prems show ?thesis by (subst (asm) connect_queue.simps) auto
  next
    case (Cons current queue')
    obtain g1 adjacent where ga: "getAdjacent g (Key current) = (g1, adjacent)"
      by (cases "getAdjacent g (Key current)")
    then have g1: "g1 = fst (getAdjacent g (Key current))" by simp
    show ?thesis
    proof (cases "connect_loop g1 visited (Slice c) queue' (elems (Set_List adjacent))")
      case (Inl err)
      with Cons ga less.prems show ?thesis by (subst (asm) connect_queue.simps) simp
    next
      case (Inr st)
      obtain visited1 connected1 queue1 where st: "st = (visited1, connected1, queue1)"
        by (cases st)
      from connect_loop_slice [OF Inr [unfolded st]] obtain c1 where c1: "connected1 = Slice c1" ..
      from connect_loop_measure [OF Inr [unfolded st]]
      have m: "card (vertex_keys g1 - visited1) + length queue1 <
          card (vertex_keys g - visited) + length queue"
        by (simp add: g1 Cons)
      from less.prems Cons ga Inr st c1
      have "connect_queue g1 visited1 (Slice c1) queue1 = Some (g', Inr connected')"
        by (subst (asm) connect_queue.simps) simp
      from less.hyps [OF m this] show ?thesis .
    qed
  qed
qed

lemma FindConnected_slice:
  "FindConnected g key = Some (g', Inr connected) \<Longrightarrow> connected \<noteq> NilSlice"
  by (auto simp: FindConnected_def split: sum.splits dest: connect_queue_slice)

lemma FindConnected_no_targets:
  assumes vs: "vertex_set (vertices g)" and l: "live g key" and t: "targets g key = []"
  shows "map_option snd (FindConnected g key) = Some (Inr (Slice []))"
proof -
  from l obtain start where s: "Lookup g key = Inr start" by (auto simp: live_iff)
  from FindConnected_reaches [OF vs s] obtain g' connected where
    f: "FindConnected g key = Some (g', Inr (Slice connected))"
    and k: "Key ` set connected = (edge_rel g)\<^sup>+ `` {key}" by blast
  have "(edge_rel g)\<^sup>+ `` {key} = {}"
  proof -
    have "(key, b) \<notin> (edge_rel g)\<^sup>+" for b
    proof
      assume "(key, b) \<in> (edge_rel g)\<^sup>+"
      then obtain c where "(key, c) \<in> edge_rel g" by (auto dest: tranclD)
      with t show False by (simp add: edge_rel_def)
    qed
    then show ?thesis by auto
  qed
  with k have "connected = []" by simp
  with f show ?thesis by simp
qed

lemma list_loop_slice:
  "list_loop g (Slice acc) xs = (g', Inr list) \<Longrightarrow> \<exists>vs. list = Slice vs"
proof (induction xs arbitrary: g acc)
  case Nil
  then show ?case by auto
next
  case (Cons x xs)
  show ?case
  proof (cases "Lookup g (GetKey x)")
    case (Inl err)
    with Cons.prems show ?thesis by simp
  next
    case (Inr v)
    obtain g1 adjacent where ga: "getAdjacent g (Key v) = (g1, adjacent)"
      by (cases "getAdjacent g (Key v)")
    with Inr Cons.prems obtain vwe where
      "list_loop g1 (Slice (acc @ [vwe])) xs = (g', Inr list)" by (simp add: Let_def)
    then show ?thesis by (rule Cons.IH)
  qed
qed

lemma Graph_List_slice: "snd (Graph_List g) = Inr list \<Longrightarrow> list \<noteq> NilSlice"
proof -
  assume "snd (Graph_List g) = Inr list"
  then obtain g' where "Graph_List g = (g', Inr list)" by (cases "Graph_List g") simp
  then show ?thesis by (auto simp: Graph_List_def dest: list_loop_slice)
qed

lemma Graph_List_no_live:
  assumes vs: "vertex_set (vertices g)" and n: "\<forall>key. \<not> live g key"
  shows "snd (Graph_List g) = Inr (Slice [])"
proof -
  define vl where "vl = found g (sort_key GetKey (elems (Set_List (vertices g))))"
  from listed_vertices [OF vs vl_def] have "set vl = {v. Lookup g (Key v) = Inr v}" by simp
  with n have "vl = []" by (auto simp: live_iff)
  then show ?thesis by (simp add: Graph_List_closed [OF vs] vl_def [symmetric])
qed

lemma Set_List_no_live:
  assumes k: "keyed s" and n: "\<forall>key. Contains s key = Inl ErrElementNotFound"
  shows "Set_List s = Slice []"
proof -
  have "e \<notin> set (elems (Set_List s))" for e
    using n by (simp add: listed_iff [OF k])
  then have "elems (Set_List s) = []" by (cases "elems (Set_List s)") auto
  then show ?thesis by (simp add: Set_List_eq)
qed

subsection \<open>The traversals of the earlier revision\<close>

lemma getAdjacent_early_eq: "getAdjacent_early g key = getAdjacent g key"
  by (simp add: getAdjacent_early_def getAdjacent_def zero_Set_def NewSet_def split: option.splits)

lemma path_loop_early_passes:
  assumes "\<forall>x\<in>set xs. \<exists>vertex. Lookup g (GetKey x) = Inr vertex \<and> Key vertex \<noteq> toKey"
  shows "\<exists>visited' inner. path_loop_early g toKey visited stack xs = Inr (visited', inner)"
  using assms by (induction xs arbitrary: visited stack) auto

lemma path_stack_early_turns:
  assumes p: "\<forall>x\<in>set (elems (Set_List (adjacent_of g0 (Key start)))).
      \<exists>vertex. Lookup g0 (GetKey x) = Inr vertex \<and> Key vertex \<noteq> toKey"
    and v: "vertices g = vertices g0"
    and a: "adjacent_of g (Key start) = adjacent_of g0 (Key start)"
  shows "path_stack_early g toKey visited [start] = None"
proof -
  have n: "k = toKey \<longrightarrow> st = [start] \<longrightarrow> vertices g = vertices g0 \<longrightarrow>
      adjacent_of g (Key start) = adjacent_of g0 (Key start) \<longrightarrow> False"
    if r: "path_stack_early g k visited st = Some y" for g k visited st y
  proof (induction g k visited st y rule: path_stack_early.raw_induct)
    case (1 again g k visited st y)
    show ?case
    proof (intro impI)
      assume k: "k = toKey" and st: "st = [start]" and v: "vertices g = vertices g0"
        and a: "adjacent_of g (Key start) = adjacent_of g0 (Key start)"
      let ?g = "fst (getAdjacent g (Key start))"
      from v have "Lookup ?g = Lookup g0" by (simp add: Lookup_def fun_eq_iff)
      with p have "\<forall>x\<in>set (elems (Set_List (adjacent_of g0 (Key start)))).
          \<exists>vertex. Lookup ?g (GetKey x) = Inr vertex \<and> Key vertex \<noteq> toKey" by simp
      from path_loop_early_passes [OF this, of visited "[]"] obtain visited' inner where
        i: "path_loop_early ?g toKey visited [] (elems (Set_List (adjacent_of g0 (Key start)))) =
            Inr (visited', inner)" by blast
      from a have s: "snd (getAdjacent g (Key start)) = adjacent_of g0 (Key start)"
        by (simp add: adjacent_of_def)
      from 1(2) i s have "again ?g toKey visited' [start] = Some y"
        by (simp add: k st Let_def case_prod_beta getAdjacent_early_eq)
      from 1(1) [OF this] v a show False by simp
    qed
  next
    show "path_stack_early g k visited st = Some y" by (rule r)
  qed
  from n [of g toKey visited "[start]"] v a show ?thesis
    by (cases "path_stack_early g toKey visited [start]") auto
qed

lemma FindPath_early_turns:
  assumes vs: "vertex_set (vertices g)"
    and l: "live g fromKey"
    and p: "\<forall>key\<in>set (map GetKey (elems (Set_List (adjacent_of g fromKey)))).
      live g key \<and> key \<noteq> toKey"
  shows "FindPath_early g fromKey toKey = None"
proof -
  from l obtain start where s: "Lookup g fromKey = Inr start" by (auto simp: live_iff)
  with vs have k: "Key start = fromKey" by (rule Lookup_Key)
  have "\<forall>x\<in>set (elems (Set_List (adjacent_of g (Key start)))).
      \<exists>vertex. Lookup g (GetKey x) = Inr vertex \<and> Key vertex \<noteq> toKey"
  proof
    fix x assume "x \<in> set (elems (Set_List (adjacent_of g (Key start))))"
    with p k have "live g (GetKey x)" "GetKey x \<noteq> toKey" by auto
    then obtain vertex where "Lookup g (GetKey x) = Inr vertex" by (auto simp: live_iff)
    with Lookup_Key [OF vs this] \<open>GetKey x \<noteq> toKey\<close>
    show "\<exists>vertex. Lookup g (GetKey x) = Inr vertex \<and> Key vertex \<noteq> toKey" by simp
  qed
  from path_stack_early_turns [OF this refl refl] s show ?thesis
    by (simp add: FindPath_early_def)
qed

lemma connect_loop_early_stops:
  assumes vs: "vertex_set (vertices g)"
    and d: "\<exists>x\<in>set xs. \<not> live g (GetKey x)"
  shows "connect_loop_early g visited connected queue xs = Inl ErrVertexNotFound"
  using d
proof (induction xs arbitrary: visited connected queue)
  case Nil
  then show ?case by simp
next
  case (Cons x xs)
  show ?case
  proof (cases "Lookup g (GetKey x)")
    case (Inl err)
    with vs have "err = ErrVertexNotFound" by (rule Lookup_Inl)
    with Inl show ?thesis by simp
  next
    case (Inr vertex)
    then have "live g (GetKey x)" by (auto simp: live_iff)
    with Cons.prems have "\<exists>x\<in>set xs. \<not> live g (GetKey x)" by auto
    from Cons.IH [OF this] Inr show ?thesis by simp
  qed
qed

lemma FindConnected_early_stops:
  assumes vs: "vertex_set (vertices g)"
    and l: "live g key"
    and d: "\<exists>k\<in>set (map GetKey (elems (Set_List (adjacent_of g key)))). \<not> live g k"
  shows "map_option snd (FindConnected_early g key) = Some (Inl ErrVertexNotFound)"
proof -
  from l obtain start where s: "Lookup g key = Inr start" by (auto simp: live_iff)
  with vs have k: "Key start = key" by (rule Lookup_Key)
  let ?g = "fst (getAdjacent g key)"
  have vs': "vertex_set (vertices ?g)" using vs by simp
  from d have "\<exists>x\<in>set (elems (Set_List (adjacent_of g key))). \<not> live ?g (GetKey x)"
    by (auto simp: live_def)
  from connect_loop_early_stops [OF vs' this]
  have "connect_loop_early ?g {key} NilSlice [] (elems (Set_List (snd (getAdjacent g key)))) =
      Inl ErrVertexNotFound" by (simp add: adjacent_of_def)
  with s k show ?thesis
    by (simp add: FindConnected_early_def connect_queue_early.simps [of g] Let_def case_prod_beta
        getAdjacent_early_eq)
qed

section \<open>Facts about merging\<close>

lemma newest_single: "newest {m} time m"
  by (auto simp: newest_def split: option.splits)

lemma newest_later:
  assumes "newest M time m" and "newest N time r"
  shows "newest (M \<union> N) time (\<lambda>key. later time (m key) (r key))"
  unfolding newest_def
proof
  fix key
  from assms(1) have m: "case m key of
        None \<Rightarrow> (\<forall>x\<in>M. x key = None)
      | Some v \<Rightarrow> (\<exists>x\<in>M. x key = Some v) \<and> (\<forall>x\<in>M. \<forall>v'. x key = Some v' \<longrightarrow> time v' \<le> time v)"
    by (simp add: newest_def)
  from assms(2) have r: "case r key of
        None \<Rightarrow> (\<forall>x\<in>N. x key = None)
      | Some v \<Rightarrow> (\<exists>x\<in>N. x key = Some v) \<and> (\<forall>x\<in>N. \<forall>v'. x key = Some v' \<longrightarrow> time v' \<le> time v)"
    by (simp add: newest_def)
  show "case later time (m key) (r key) of
        None \<Rightarrow> (\<forall>x\<in>M \<union> N. x key = None)
      | Some v \<Rightarrow> (\<exists>x\<in>M \<union> N. x key = Some v) \<and>
          (\<forall>x\<in>M \<union> N. \<forall>v'. x key = Some v' \<longrightarrow> time v' \<le> time v)"
  proof (cases "m key")
    case None
    note mk = None
    show ?thesis
    proof (cases "r key")
      case None
      with mk m r show ?thesis by (auto simp: later_def)
    next
      case (Some rv)
      with mk m r show ?thesis by (auto simp: later_def)
    qed
  next
    case (Some lv)
    with m have m1: "\<exists>x\<in>M. x key = Some lv"
      and m2: "\<forall>x\<in>M. \<forall>v'. x key = Some v' \<longrightarrow> time v' \<le> time lv" by simp_all
    show ?thesis
    proof (cases "r key")
      case None
      with r have "\<forall>x\<in>N. x key = None" by simp
      with m1 m2 have "(\<exists>x\<in>M \<union> N. x key = Some lv) \<and>
          (\<forall>x\<in>M \<union> N. \<forall>v'. x key = Some v' \<longrightarrow> time v' \<le> time lv)" by auto
      with Some None show ?thesis by (simp add: later_def)
    next
      case r_key: (Some rv)
      with r have r1: "\<exists>x\<in>N. x key = Some rv"
        and r2: "\<forall>x\<in>N. \<forall>v'. x key = Some v' \<longrightarrow> time v' \<le> time rv" by simp_all
      show ?thesis
      proof (cases "time lv < time rv")
        case True
        have "\<forall>x\<in>M \<union> N. \<forall>v'. x key = Some v' \<longrightarrow> time v' \<le> time rv"
        proof (intro ballI allI impI)
          fix x v' assume x: "x \<in> M \<union> N" and v': "x key = Some v'"
          show "time v' \<le> time rv"
          proof (cases "x \<in> M")
            case True
            with m2 v' have "time v' \<le> time lv" by blast
            with \<open>time lv < time rv\<close> show ?thesis by simp
          next
            case False
            with x r2 v' show ?thesis by blast
          qed
        qed
        moreover from r1 have "\<exists>x\<in>M \<union> N. x key = Some rv" by blast
        ultimately show ?thesis using Some r_key True by (simp add: later_def)
      next
        case False
        have "\<forall>x\<in>M \<union> N. \<forall>v'. x key = Some v' \<longrightarrow> time v' \<le> time lv"
        proof (intro ballI allI impI)
          fix x v' assume x: "x \<in> M \<union> N" and v': "x key = Some v'"
          show "time v' \<le> time lv"
          proof (cases "x \<in> M")
            case True
            with m2 v' show ?thesis by blast
          next
            case no: False
            with x r2 v' have "time v' \<le> time rv" by blast
            with False show ?thesis by simp
          qed
        qed
        moreover from m1 have "\<exists>x\<in>M \<union> N. x key = Some lv" by blast
        ultimately show ?thesis using Some r_key False by (simp add: later_def)
      qed
    qed
  qed
qed

lemma newest_unique:
  assumes "newest M time m" and "newest M time m'"
    and agree: "\<And>x y key v v'. x \<in> M \<Longrightarrow> y \<in> M \<Longrightarrow> x key = Some v \<Longrightarrow> y key = Some v' \<Longrightarrow>
      time v = time v' \<Longrightarrow> v = v'"
  shows "m = m'"
proof
  fix key
  from assms(1) have m: "case m key of
        None \<Rightarrow> (\<forall>x\<in>M. x key = None)
      | Some v \<Rightarrow> (\<exists>x\<in>M. x key = Some v) \<and> (\<forall>x\<in>M. \<forall>v'. x key = Some v' \<longrightarrow> time v' \<le> time v)"
    by (simp add: newest_def)
  from assms(2) have m': "case m' key of
        None \<Rightarrow> (\<forall>x\<in>M. x key = None)
      | Some v \<Rightarrow> (\<exists>x\<in>M. x key = Some v) \<and> (\<forall>x\<in>M. \<forall>v'. x key = Some v' \<longrightarrow> time v' \<le> time v)"
    by (simp add: newest_def)
  show "m key = m' key"
  proof (cases "m key")
    case None
    with m m' show ?thesis by (cases "m' key") auto
  next
    case (Some v)
    show ?thesis
    proof (cases "m' key")
      case None
      with Some m m' show ?thesis by auto
    next
      case s': (Some v')
      from Some m obtain x where x: "x \<in> M" "x key = Some v"
        and mx: "\<forall>y\<in>M. \<forall>w. y key = Some w \<longrightarrow> time w \<le> time v" by auto
      from s' m' obtain y where y: "y \<in> M" "y key = Some v'"
        and my: "\<forall>x\<in>M. \<forall>w. x key = Some w \<longrightarrow> time w \<le> time v'" by auto
      from mx y have "time v' \<le> time v" by blast
      moreover from my x have "time v \<le> time v'" by blast
      ultimately have "time v = time v'" by simp
      from agree [OF x(1) y(1) x(2) y(2) this] Some s' show ?thesis by simp
    qed
  qed
qed

lemma map_of_Replicate:
  assumes "distinct (map fst (additions r))" and "distinct (map fst (removals r))"
  shows "map_of (additions (Replicate s r)) =
      (\<lambda>key. later Timestamp (map_of (additions s) key) (map_of (additions r) key))"
    and "map_of (removals (Replicate s r)) =
      (\<lambda>key. later (\<lambda>t. t) (map_of (removals s) key) (map_of (removals r) key))"
  using assms
  by (auto simp: Replicate_def map_of_foldl_replicate_addition map_of_foldl_replicate_removal
      later_def fun_eq_iff split: option.splits)

lemma joins_single: "joins {s} s"
  by (simp add: joins_def newest_single)

lemma joins_Replicate:
  assumes "keyed r" and "joins S s" and "joins T r"
  shows "joins (S \<union> T) (Replicate s r)"
proof -
  from assms(1) have d: "distinct (map fst (additions r))" "distinct (map fst (removals r))"
    by (simp_all add: keyed_def)
  from assms(2,3) show ?thesis
    by (simp add: joins_def map_of_Replicate [OF d] image_Un newest_later)
qed

lemma set_update_cases:
  "(k', v') \<in> set (AList.update k v al) \<Longrightarrow> (k', v') = (k, v) \<or> (k', v') \<in> set al"
  by (induction al) (auto split: if_splits)

lemma list_all_update:
  "list_all P al \<Longrightarrow> P (k, v) \<Longrightarrow> list_all P (AList.update k v al)"
  by (auto simp: list_all_iff dest: set_update_cases)

lemma list_all_replicate_addition:
  "list_all P loc \<Longrightarrow> P x \<Longrightarrow> list_all P (replicate_addition loc x)"
  by (cases x) (auto simp: list_all_update split: option.splits)

lemma list_all_foldl_replicate_addition:
  "list_all P loc \<Longrightarrow> list_all P rs \<Longrightarrow> list_all P (foldl replicate_addition loc rs)"
  by (induction rs arbitrary: loc)
    (simp_all add: list_all_replicate_addition del: replicate_addition.simps)

lemma distinct_replicate_addition:
  "distinct (map fst loc) \<Longrightarrow> distinct (map fst (replicate_addition loc x))"
  by (cases x) (auto simp: distinct_update split: option.splits)

lemma distinct_replicate_removal:
  "distinct (map fst loc) \<Longrightarrow> distinct (map fst (replicate_removal loc x))"
  by (cases x) (auto simp: distinct_update split: option.splits)

lemma distinct_foldl_replicate_addition:
  "distinct (map fst loc) \<Longrightarrow> distinct (map fst (foldl replicate_addition loc rs))"
  by (induction rs arbitrary: loc)
    (simp_all add: distinct_replicate_addition del: replicate_addition.simps)

lemma distinct_foldl_replicate_removal:
  "distinct (map fst loc) \<Longrightarrow> distinct (map fst (foldl replicate_removal loc rs))"
  by (induction rs arbitrary: loc)
    (simp_all add: distinct_replicate_removal del: replicate_removal.simps)

lemma keyed_Add: "keyed s \<Longrightarrow> keyed (Add e now s)"
  by (simp add: keyed_def Add_def distinct_update list_all_update)

lemma keyed_Remove: "keyed s \<Longrightarrow> keyed (Remove key now s)"
  by (simp add: keyed_def Remove_def distinct_update)

lemma keyed_Replicate: "keyed s \<Longrightarrow> keyed r \<Longrightarrow> keyed (Replicate s r)"
  by (simp add: keyed_def Replicate_def distinct_foldl_replicate_addition
      distinct_foldl_replicate_removal list_all_foldl_replicate_addition)

lemma vertex_set_Add: "vertex_set s \<Longrightarrow> vertex_set (Add (VertexElement v) now s)"
  by (simp add: vertex_set_def keyed_Add) (simp add: Add_def list_all_update)

lemma vertex_set_Remove: "vertex_set s \<Longrightarrow> vertex_set (Remove key now s)"
  by (simp add: vertex_set_def keyed_Remove) (simp add: Remove_def)

lemma vertex_set_Replicate: "vertex_set s \<Longrightarrow> vertex_set r \<Longrightarrow> vertex_set (Replicate s r)"
  by (simp add: vertex_set_def keyed_Replicate)
    (simp add: Replicate_def list_all_foldl_replicate_addition)

lemma adjacent_set_NewSet [simp]: "adjacent_set NewSet"
  by (simp add: adjacent_set_def keyed_def NewSet_def)

lemma adjacent_set_Add: "adjacent_set s \<Longrightarrow> adjacent_set (Add (IDElement key) now s)"
  by (simp add: adjacent_set_def keyed_Add) (simp add: Add_def list_all_update)

lemma adjacent_set_Remove: "adjacent_set s \<Longrightarrow> adjacent_set (Remove key now s)"
  by (simp add: adjacent_set_def keyed_Remove) (simp add: Remove_def)

lemma adjacent_set_Replicate:
  "adjacent_set s \<Longrightarrow> adjacent_set r \<Longrightarrow> adjacent_set (Replicate s r)"
  by (simp add: adjacent_set_def keyed_Replicate)
    (simp add: Replicate_def list_all_foldl_replicate_addition)

lemma adjacent_set_adjacent_of: "wf_Graph g \<Longrightarrow> adjacent_set (adjacent_of g key)"
  by (auto simp: adjacent_of_alt wf_Graph_def list_all_iff split: option.splits
      dest!: map_of_SomeD)

lemma wf_Graph_put:
  "wf_Graph g \<Longrightarrow> adjacent_set s \<Longrightarrow> wf_Graph (g\<lparr>edges := AList.update key s (edges g)\<rparr>)"
  by (simp add: wf_Graph_def distinct_update list_all_update)

lemma wf_Graph_getAdjacent: "wf_Graph g \<Longrightarrow> wf_Graph (fst (getAdjacent g key))"
  by (simp add: getAdjacent_def wf_Graph_put split: option.splits)

lemma wf_Graph_NewGraph: "wf_Graph NewGraph"
  by (simp add: wf_Graph_def NewGraph_def vertex_set_def keyed_def NewSet_def)

lemma wf_Graph_AddVertex: "wf_Graph g \<Longrightarrow> wf_Graph (fst (AddVertex v now g))"
  by (auto simp: AddVertex_def wf_Graph_def vertex_set_Add split: sum.splits)

lemma wf_Graph_RemoveVertex: "wf_Graph g \<Longrightarrow> wf_Graph (fst (RemoveVertex key now g))"
  by (auto simp: RemoveVertex_def wf_Graph_def vertex_set_Remove split: sum.splits)

lemma wf_Graph_AddEdge:
  assumes "wf_Graph g"
  shows "wf_Graph (fst (AddEdge fromKey toKey now g))"
proof -
  have "wf_Graph ((fst (getAdjacent g fromKey))
      \<lparr>edges := AList.update fromKey (Add (IDElement toKey) now (adjacent_of g fromKey))
         (edges (fst (getAdjacent g fromKey)))\<rparr>)"
    using assms by (intro wf_Graph_put wf_Graph_getAdjacent adjacent_set_Add adjacent_set_adjacent_of)
  with assms show ?thesis
    by (simp add: AddEdge_def adjacent_of_def case_prod_beta split: sum.splits)
qed

lemma wf_Graph_RemoveEdge:
  assumes "wf_Graph g"
  shows "wf_Graph (fst (RemoveEdge fromKey toKey now g))"
proof -
  have "wf_Graph ((fst (getAdjacent g fromKey))
      \<lparr>edges := AList.update fromKey (Remove toKey now (adjacent_of g fromKey))
         (edges (fst (getAdjacent g fromKey)))\<rparr>)"
    using assms by (intro wf_Graph_put wf_Graph_getAdjacent adjacent_set_Remove adjacent_set_adjacent_of)
  with assms show ?thesis
    by (simp add: RemoveEdge_def adjacent_of_def case_prod_beta split: sum.splits)
qed

lemma merge_adjacent_eq:
  "merge_adjacent g (key, ra) =
     (fst (getAdjacent g key))
       \<lparr>edges := AList.update key (Replicate (adjacent_of g key) ra) (edges (fst (getAdjacent g key)))\<rparr>"
  by (simp add: adjacent_of_def case_prod_beta)

lemma vertices_merge_adjacent: "vertices (merge_adjacent g x) = vertices g"
  by (cases x) (simp add: merge_adjacent_eq del: merge_adjacent.simps)

lemma adjacent_of_merge_adjacent:
  "adjacent_of (merge_adjacent g (key, ra)) k =
     (if k = key then Replicate (adjacent_of g key) ra else adjacent_of g k)"
  by (simp add: merge_adjacent_eq adjacent_of_alt update_conv' map_of_edges_getAdjacent
      del: merge_adjacent.simps)

lemma wf_Graph_merge_adjacent:
  "wf_Graph g \<Longrightarrow> adjacent_set ra \<Longrightarrow> wf_Graph (merge_adjacent g (key, ra))"
  unfolding merge_adjacent_eq
  by (intro wf_Graph_put wf_Graph_getAdjacent adjacent_set_Replicate adjacent_set_adjacent_of)

lemma foldl_merge_adjacent:
  "distinct (map fst es) \<Longrightarrow>
     vertices (foldl merge_adjacent g es) = vertices g \<and>
     adjacent_of (foldl merge_adjacent g es) k =
       (case map_of es k of None \<Rightarrow> adjacent_of g k | Some ra \<Rightarrow> Replicate (adjacent_of g k) ra)"
proof (induction es arbitrary: g)
  case Nil
  show ?case by simp
next
  case (Cons x es)
  obtain key ra where x: "x = (key, ra)" by (cases x)
  from Cons.prems x have fresh: "map_of es key = None" and d: "distinct (map fst es)"
    by (auto simp: map_of_eq_None_iff)
  from Cons.IH [OF d, of "merge_adjacent g (key, ra)"] fresh show ?case
    by (auto simp: x vertices_merge_adjacent adjacent_of_merge_adjacent
        simp del: merge_adjacent.simps split: option.splits)
qed

lemma Replicate_NewSet [simp]: "Replicate s NewSet = s"
  by (simp add: Replicate_def NewSet_def)

lemma vertices_Merge:
  "distinct (map fst (edges r)) \<Longrightarrow> vertices (Merge g r) = Replicate (vertices g) (vertices r)"
  by (simp add: Merge_def foldl_merge_adjacent)

lemma adjacent_of_Merge:
  assumes "distinct (map fst (edges r))"
  shows "adjacent_of (Merge g r) key = Replicate (adjacent_of g key) (adjacent_of r key)"
proof -
  let ?g = "g\<lparr>vertices := Replicate (vertices g) (vertices r)\<rparr>"
  have "adjacent_of (Merge g r) key =
      (case map_of (edges r) key of
         None \<Rightarrow> adjacent_of ?g key
       | Some ra \<Rightarrow> Replicate (adjacent_of ?g key) ra)"
    by (simp add: Merge_def foldl_merge_adjacent [OF assms])
  moreover have "adjacent_of ?g key = adjacent_of g key" by (simp add: adjacent_of_alt)
  moreover have "adjacent_of r key = (case map_of (edges r) key of None \<Rightarrow> NewSet | Some s \<Rightarrow> s)"
    by (rule adjacent_of_alt)
  ultimately show ?thesis by (simp split: option.splits)
qed

lemma wf_Graph_foldl_merge_adjacent:
  "wf_Graph g \<Longrightarrow> list_all (\<lambda>(key, s). adjacent_set s) es \<Longrightarrow>
     wf_Graph (foldl merge_adjacent g es)"
proof (induction es arbitrary: g)
  case Nil
  then show ?case by simp
next
  case (Cons x es)
  obtain key ra where x: "x = (key, ra)" by (cases x)
  with Cons.prems have "wf_Graph (merge_adjacent g (key, ra))"
    by (intro wf_Graph_merge_adjacent) simp_all
  with Cons.IH [of "merge_adjacent g (key, ra)"] Cons.prems x show ?case
    by (simp del: merge_adjacent.simps)
qed

lemma wf_Graph_Merge: "wf_Graph g \<Longrightarrow> wf_Graph r \<Longrightarrow> wf_Graph (Merge g r)"
  unfolding Merge_def
  by (intro wf_Graph_foldl_merge_adjacent) (simp_all add: wf_Graph_def vertex_set_Replicate)

lemma merges_snoc: "merges (schedule @ [m]) replicas = merge_at m (merges schedule replicas)"
  by (simp add: merges_def)

lemma heard_snoc: "heard n (schedule @ [m]) = heard_at n m (heard n schedule)"
  by (simp add: heard_def)

lemma length_merge_at [simp]: "length (merge_at m replicas) = length replicas"
  by (simp add: merge_at_def split: prod.splits)

lemma length_merges [simp]: "length (merges schedule replicas) = length replicas"
  by (induction schedule rule: rev_induct) (simp_all add: merges_snoc, simp add: merges_def)

lemma joined_single: "joined replicas {i} (replicas ! i)"
  by (simp add: joined_def joins_single)

lemma joined_Merge:
  assumes "wf_Graph r" and "joined replicas K g" and "joined replicas L r"
  shows "joined replicas (K \<union> L) (Merge g r)"
proof -
  from assms(1) have d: "distinct (map fst (edges r))" and k: "keyed (vertices r)"
    by (simp_all add: wf_Graph_def vertex_set_def)
  from assms(2,3) show ?thesis
    by (simp add: joined_def vertices_Merge [OF d] adjacent_of_Merge [OF d] image_Un
        joins_Replicate k keyed_adjacent_of [OF assms(1)])
qed

lemma merges_joined:
  assumes wf: "list_all wf_Graph replicas"
  shows "list_all wf_Graph (merges schedule replicas) \<and>
    (\<forall>i<length replicas.
       joined replicas (heard (length replicas) schedule i) (merges schedule replicas ! i) \<and>
       heard (length replicas) schedule i \<subseteq> {..<length replicas})"
proof (induction schedule rule: rev_induct)
  case Nil
  from wf show ?case by (simp add: merges_def heard_def joined_single)
next
  case (snoc m schedule)
  let ?n = "length replicas"
  let ?rs = "merges schedule replicas"
  let ?h = "heard ?n schedule"
  obtain dst src where m: "m = (dst, src)" by (cases m)
  from snoc have w: "list_all wf_Graph ?rs"
    and j: "\<And>i. i < ?n \<Longrightarrow> joined replicas (?h i) (?rs ! i)"
    and b: "\<And>i. i < ?n \<Longrightarrow> ?h i \<subseteq> {..<?n}" by simp_all
  show ?case
  proof (cases "dst < ?n \<and> src < ?n")
    case False
    then have "merge_at m ?rs = ?rs" and "heard_at ?n m ?h = ?h"
      by (auto simp: merge_at_def heard_at_def m)
    with snoc show ?thesis by (simp add: merges_snoc heard_snoc)
  next
    case True
    then have dst: "dst < ?n" and src: "src < ?n" by simp_all
    from w dst src have wd: "wf_Graph (?rs ! dst)" and ws: "wf_Graph (?rs ! src)"
      by (simp_all add: list_all_length)
    have rs': "merges (schedule @ [m]) replicas = ?rs[dst := Merge (?rs ! dst) (?rs ! src)]"
      using True by (simp add: merges_snoc merge_at_def m)
    have h': "heard ?n (schedule @ [m]) = (?h)(dst := ?h dst \<union> ?h src)"
      using True by (simp add: heard_snoc heard_at_def m)
    have "wf_Graph (Merge (?rs ! dst) (?rs ! src))" using wd ws by (rule wf_Graph_Merge)
    with w have w': "list_all wf_Graph (merges (schedule @ [m]) replicas)"
      unfolding rs' by (auto simp: list_all_iff dest!: set_update_subset_insert [THEN subsetD])
    have "joined replicas (?h dst \<union> ?h src) (Merge (?rs ! dst) (?rs ! src))"
      using ws j [OF dst] j [OF src] by (rule joined_Merge)
    with j dst have j': "\<forall>i<?n. joined replicas (heard ?n (schedule @ [m]) i)
        (merges (schedule @ [m]) replicas ! i)"
      unfolding rs' h' by (simp add: nth_list_update)
    from b dst src have b': "\<forall>i<?n. heard ?n (schedule @ [m]) i \<subseteq> {..<?n}"
      unfolding h' by simp
    from w' j' b' show ?thesis by simp
  qed
qed

lemma same_time_same_recordD:
  assumes "same_time_same_record s s'"
    and "map_of (additions s) key = Some rec" and "map_of (additions s') key = Some rec'"
    and "Timestamp rec = Timestamp rec'"
  shows "rec = rec'"
proof -
  from assms(2) have "(key, rec) \<in> set (additions s)" by (rule map_of_SomeD)
  with assms(1) have "case map_of (additions s') key of
      None \<Rightarrow> True | Some rec' \<Rightarrow> Timestamp rec = Timestamp rec' \<longrightarrow> rec = rec'"
    by (auto simp: same_time_same_record_def list_all_iff)
  with assms(3,4) show ?thesis by simp
qed

lemma joins_unique:
  assumes "joins S s" and "joins S s'"
    and agree: "\<And>t t' key rec rec'. t \<in> S \<Longrightarrow> t' \<in> S \<Longrightarrow>
      map_of (additions t) key = Some rec \<Longrightarrow> map_of (additions t') key = Some rec' \<Longrightarrow>
      Timestamp rec = Timestamp rec' \<Longrightarrow> rec = rec'"
  shows "registers s = registers s'"
proof -
  from assms(1,2) have a: "newest ((\<lambda>t. map_of (additions t)) ` S) Timestamp (map_of (additions s))"
    "newest ((\<lambda>t. map_of (additions t)) ` S) Timestamp (map_of (additions s'))"
    and r: "newest ((\<lambda>t. map_of (removals t)) ` S) (\<lambda>t. t) (map_of (removals s))"
    "newest ((\<lambda>t. map_of (removals t)) ` S) (\<lambda>t. t) (map_of (removals s'))"
    by (simp_all add: joins_def)
  have "map_of (additions s) = map_of (additions s')"
    using a by (rule newest_unique) (auto dest: agree)
  moreover have "map_of (removals s) = map_of (removals s')"
    using r by (rule newest_unique) simp
  ultimately show ?thesis by (simp add: registers_def)
qed

lemma adjacent_records_agree:
  assumes "adjacent_set t" and "adjacent_set t'"
    and "map_of (additions t) key = Some rec" and "map_of (additions t') key = Some rec'"
    and "Timestamp rec = Timestamp rec'"
  shows "rec = rec'"
proof -
  from assms(1,3) have "Element rec = IDElement key" by (rule adjacent_set_map_of)
  moreover from assms(2,4) have "Element rec' = IDElement key" by (rule adjacent_set_map_of)
  ultimately show ?thesis using assms(5) by simp
qed

lemma joined_same_registers:
  assumes wf: "list_all wf_Graph replicas" and c: "consistent replicas"
    and K: "K \<subseteq> {..<length replicas}"
    and g: "joined replicas K g" and g': "joined replicas K g'"
  shows "same_registers g g'"
proof -
  have w: "wf_Graph (replicas ! m)" if "m \<in> K" for m
    using wf K that by (auto simp: list_all_length)
  have "registers (vertices g) = registers (vertices g')"
  proof (rule joins_unique)
    from g show "joins ((\<lambda>m. vertices (replicas ! m)) ` K) (vertices g)" by (simp add: joined_def)
    from g' show "joins ((\<lambda>m. vertices (replicas ! m)) ` K) (vertices g')" by (simp add: joined_def)
  next
    fix t t' key rec rec'
    assume "t \<in> (\<lambda>m. vertices (replicas ! m)) ` K" "t' \<in> (\<lambda>m. vertices (replicas ! m)) ` K"
    then obtain a b where ab: "a \<in> K" "b \<in> K" "t = vertices (replicas ! a)" "t' = vertices (replicas ! b)"
      by auto
    with K have "a < length replicas" "b < length replicas" by auto
    with c have "same_time_same_record (vertices (replicas ! a)) (vertices (replicas ! b))"
      by (simp add: consistent_def list_all_length)
    moreover assume "map_of (additions t) key = Some rec" "map_of (additions t') key = Some rec'"
      "Timestamp rec = Timestamp rec'"
    ultimately show "rec = rec'" using ab by (auto dest: same_time_same_recordD)
  qed
  moreover have "registers (adjacent_of g key) = registers (adjacent_of g' key)" for key
  proof (rule joins_unique)
    from g show "joins ((\<lambda>m. adjacent_of (replicas ! m) key) ` K) (adjacent_of g key)"
      by (simp add: joined_def)
    from g' show "joins ((\<lambda>m. adjacent_of (replicas ! m) key) ` K) (adjacent_of g' key)"
      by (simp add: joined_def)
  next
    fix t t' k rec rec'
    assume "t \<in> (\<lambda>m. adjacent_of (replicas ! m) key) ` K"
      "t' \<in> (\<lambda>m. adjacent_of (replicas ! m) key) ` K"
    then have "adjacent_set t" "adjacent_set t'"
      using w by (auto intro: adjacent_set_adjacent_of)
    moreover assume "map_of (additions t) k = Some rec" "map_of (additions t') k = Some rec'"
      "Timestamp rec = Timestamp rec'"
    ultimately show "rec = rec'" by (rule adjacent_records_agree)
  qed
  ultimately show ?thesis by (simp add: same_registers_def)
qed

lemma reachable_wf_Graph: "reachable g \<Longrightarrow> wf_Graph g"
  by (induction rule: reachable.induct)
    (simp_all add: wf_Graph_NewGraph wf_Graph_AddVertex wf_Graph_RemoveVertex wf_Graph_AddEdge
      wf_Graph_RemoveEdge wf_Graph_Merge wf_Graph_getAdjacent)

lemma heard_self: "i \<in> heard n schedule i"
  by (induction schedule rule: rev_induct)
    (auto simp: heard_snoc heard_at_def, simp add: heard_def)

lemma heard_bounded: "i < n \<Longrightarrow> heard n schedule i \<subseteq> {..<n}"
proof (induction schedule arbitrary: i rule: rev_induct)
  case Nil
  then show ?case by (simp add: heard_def)
next
  case (snoc m schedule)
  then show ?case by (auto simp: heard_snoc heard_at_def split: prod.splits if_splits)
qed

lemma heard_append:
  "heard n (s @ s') = foldl (\<lambda>h m. heard_at n m h) (heard n s) s'"
  by (simp add: heard_def)

lemma heard_at_grows: "h i \<subseteq> heard_at n m h i"
  by (auto simp: heard_at_def split: prod.splits)

lemma foldl_heard_at_grows: "h i \<subseteq> foldl (\<lambda>h m. heard_at n m h) h s i"
proof (induction s arbitrary: h)
  case Nil
  show ?case by simp
next
  case (Cons m s)
  from heard_at_grows [of h i n m] Cons [of "heard_at n m h"] show ?case by auto
qed

lemma heard_grows: "heard n s i \<subseteq> heard n (s @ s') i"
  by (simp add: heard_append foldl_heard_at_grows)

lemma heard_row:
  "d < n \<Longrightarrow> \<forall>x\<in>set xs. x < n \<and> x \<noteq> d \<Longrightarrow>
     foldl (\<lambda>h m. heard_at n m h) h (map (\<lambda>src. (d, src)) xs) = h(d := h d \<union> \<Union> (h ` set xs))"
proof (induction xs arbitrary: h)
  case Nil
  show ?case by simp
next
  case (Cons x xs)
  from Cons.prems have x: "x < n" "x \<noteq> d" and rest: "\<forall>x\<in>set xs. x < n \<and> x \<noteq> d" by simp_all
  let ?h = "h(d := h d \<union> h x)"
  from Cons.prems(1) x have step: "heard_at n (d, x) h = ?h" by (simp add: heard_at_def)
  from rest have img: "?h ` set xs = h ` set xs" by (intro image_cong) auto
  have "foldl (\<lambda>h m. heard_at n m h) h (map (\<lambda>src. (d, src)) (x # xs)) =
      foldl (\<lambda>h m. heard_at n m h) ?h (map (\<lambda>src. (d, src)) xs)"
    by (simp add: step)
  also have "\<dots> = ?h(d := ?h d \<union> \<Union> (?h ` set xs))"
    by (rule Cons.IH [OF Cons.prems(1) rest])
  also have "\<dots> = h(d := h d \<union> \<Union> (h ` set (x # xs)))"
    by (simp only: img) (simp add: Un_assoc)
  finally show ?case .
qed

lemma heard_rows:
  assumes self: "\<And>i. i \<in> h i" and bounded: "\<And>i. i < n \<Longrightarrow> h i \<subseteq> {..<n}"
  shows "k \<le> n \<Longrightarrow>
    (let h' = foldl (\<lambda>h m. heard_at n m h) h
       (concat (map (\<lambda>dst. map (\<lambda>src. (dst, src)) (filter (\<lambda>src. src \<noteq> dst) [0..<n])) [0..<k]))
     in (\<forall>i<k. h' i = {..<n}) \<and> (\<forall>i. i \<in> h' i) \<and> (\<forall>i<n. h' i \<subseteq> {..<n}))"
proof (induction k)
  case 0
  from self bounded show ?case by simp
next
  case (Suc k)
  let ?row = "\<lambda>dst. map (\<lambda>src. (dst, src)) (filter (\<lambda>src. src \<noteq> dst) [0..<n])"
  define h1 where "h1 = foldl (\<lambda>h m. heard_at n m h) h (concat (map ?row [0..<k]))"
  from Suc have full: "\<forall>i<k. h1 i = {..<n}" and s1: "\<forall>i. i \<in> h1 i"
    and b1: "\<forall>i<n. h1 i \<subseteq> {..<n}" by (simp_all add: h1_def Let_def)
  from Suc.prems have k: "k < n" by simp
  have row: "foldl (\<lambda>h m. heard_at n m h) h1 (?row k) =
      h1(k := h1 k \<union> \<Union> (h1 ` set (filter (\<lambda>src. src \<noteq> k) [0..<n])))"
    by (rule heard_row [OF k]) simp
  have "{..<n} \<subseteq> h1 k \<union> \<Union> (h1 ` set (filter (\<lambda>src. src \<noteq> k) [0..<n]))"
  proof
    fix x assume "x \<in> {..<n}"
    then have "x < n" by simp
    show "x \<in> h1 k \<union> \<Union> (h1 ` set (filter (\<lambda>src. src \<noteq> k) [0..<n]))"
    proof (cases "x = k")
      case True
      with s1 show ?thesis by simp
    next
      case False
      with \<open>x < n\<close> have "x \<in> set (filter (\<lambda>src. src \<noteq> k) [0..<n])" by simp
      with s1 show ?thesis by blast
    qed
  qed
  moreover have "h1 k \<union> \<Union> (h1 ` set (filter (\<lambda>src. src \<noteq> k) [0..<n])) \<subseteq> {..<n}"
    using b1 k by auto
  ultimately have new: "h1 k \<union> \<Union> (h1 ` set (filter (\<lambda>src. src \<noteq> k) [0..<n])) = {..<n}" by blast
  have "foldl (\<lambda>h m. heard_at n m h) h (concat (map ?row [0..<Suc k])) =
      foldl (\<lambda>h m. heard_at n m h) h1 (?row k)"
    by (simp add: h1_def)
  also have "\<dots> = h1(k := h1 k \<union> \<Union> (h1 ` set (filter (\<lambda>src. src \<noteq> k) [0..<n])))"
    by (rule row)
  also have "\<dots> = h1(k := {..<n})" by (simp only: new)
  finally have "foldl (\<lambda>h m. heard_at n m h) h (concat (map ?row [0..<Suc k])) = h1(k := {..<n})" .
  moreover have "\<forall>i<Suc k. (h1(k := {..<n})) i = {..<n}" using full by (simp add: less_Suc_eq)
  moreover have "\<forall>i. i \<in> (h1(k := {..<n})) i" using s1 k by simp
  moreover have "\<forall>i<n. (h1(k := {..<n})) i \<subseteq> {..<n}" using b1 by simp
  ultimately show ?case by (simp only: Let_def) blast
qed

lemma heard_all_pairs:
  assumes "i < n"
  shows "heard n (s @ all_pairs n @ s') i = {..<n}"
proof -
  have "heard n (s @ all_pairs n) i = {..<n}"
    using heard_rows [of "heard n s" n n, OF heard_self heard_bounded] assms
    by (simp add: heard_append all_pairs_def Let_def)
  moreover have "heard n (s @ all_pairs n) i \<subseteq> heard n ((s @ all_pairs n) @ s') i"
    by (rule heard_grows)
  moreover have "heard n ((s @ all_pairs n) @ s') i \<subseteq> {..<n}"
    using assms by (rule heard_bounded)
  ultimately show ?thesis by auto
qed

lemma same_heard_same_list:
  assumes "list_all wf_Graph replicas" and "consistent replicas"
    and "i < length replicas" and "j < length replicas"
    and "heard (length replicas) schedule i = heard (length replicas) schedule j"
  shows "snd (Graph_List (merges schedule replicas ! i)) =
    snd (Graph_List (merges schedule replicas ! j))"
proof -
  let ?rs = "merges schedule replicas"
  let ?K = "heard (length replicas) schedule i"
  note m = merges_joined [OF assms(1), of schedule]
  from m assms(3,4) have w: "wf_Graph (?rs ! i)" "wf_Graph (?rs ! j)"
    by (simp_all add: list_all_length)
  from m assms(3) have ji: "joined replicas ?K (?rs ! i)"
    and K: "?K \<subseteq> {..<length replicas}" by blast+
  from m assms(4) have "joined replicas (heard (length replicas) schedule j) (?rs ! j)" by blast
  then have jj: "joined replicas ?K (?rs ! j)" by (simp only: assms(5))
  from joined_same_registers [OF assms(1,2) K jj ji] have "same_registers (?rs ! j) (?rs ! i)" .
  from Graph_List_same [OF w(2) w(1) this] show ?thesis .
qed

section \<open>The claims about the element set\<close>

text \<open>
  C1. The claim: \<^verbatim>\<open>lookup(k)\<close> returns the element of the add record of \<open>k\<close> exactly when
  \<open>k\<close> has an add record and either no removal is recorded for \<open>k\<close> or the record is
  strictly later than the removal; a later add revives a removed key.

  \<^verbatim>\<open>removed\<close> joins its two tests with \<^verbatim>\<open>||\<close>: a key with any removal on record is
  removed, whatever the timestamps. After an add at time 1, a removal at time 2 and an add
  at time 3 of the same key, \<^verbatim>\<open>Contains\<close> answers \<^verbatim>\<open>ErrElementNotFound\<close> and \<^verbatim>\<open>List\<close> is empty.
\<close>

theorem Contains_readded:
  "map_of (additions readded) ''k'' = Some \<lparr>Element = IDElement ''k'', Timestamp = 3\<rparr> \<and>
   map_of (removals readded) ''k'' = Some 2 \<and>
   Contains readded ''k'' = Inl ErrElementNotFound \<and>
   Set_List readded = Slice []"
  by (simp add: readded_def Add_def Remove_def NewSet_def Contains_def Set_List_def
      removed_def comma_ok_def After_def)

text \<open>
  C3. Merging \<open>remote\<close> into \<open>s\<close> leaves under every key the remote add record when the key
  is new to \<open>s\<close> or the remote record is strictly later, and the local record otherwise (so
  also when the two timestamps are equal); the same holds of the removal timestamps; and
  every key of either local map is still a key of it after the merge.
\<close>

theorem Replicate_strictly_later:
  assumes "distinct (map fst (additions remote))" and "distinct (map fst (removals remote))"
  shows
    "map_of (additions (Replicate s remote)) key =
       (case map_of (additions remote) key of
          None \<Rightarrow> map_of (additions s) key
        | Some remoteRecord \<Rightarrow>
            (case map_of (additions s) key of
               None \<Rightarrow> Some remoteRecord
             | Some localRecord \<Rightarrow>
                 if After (Timestamp remoteRecord) (Timestamp localRecord)
                 then Some remoteRecord else Some localRecord)) \<and>
     map_of (removals (Replicate s remote)) key =
       (case map_of (removals remote) key of
          None \<Rightarrow> map_of (removals s) key
        | Some remoteRemovedAt \<Rightarrow>
            (case map_of (removals s) key of
               None \<Rightarrow> Some remoteRemovedAt
             | Some localRemovedAt \<Rightarrow>
                 if After remoteRemovedAt localRemovedAt
                 then Some remoteRemovedAt else Some localRemovedAt)) \<and>
     fst ` set (additions s) \<subseteq> fst ` set (additions (Replicate s remote)) \<and>
     fst ` set (removals s) \<subseteq> fst ` set (removals (Replicate s remote))"
  using assms
  by (simp add: Replicate_def map_of_foldl_replicate_addition map_of_foldl_replicate_removal
      keys_foldl_replicate_addition keys_foldl_replicate_removal After_def
      split: option.splits)

theorem Replicate_strictly_later_witness:
  "distinct (map fst (additions remote_set)) \<and> distinct (map fst (removals remote_set)) \<and>
   map (\<lambda>key. map_of (additions (Replicate local_set remote_set)) key) [''a'', ''b'', ''c'', ''d''] =
     [Some \<lparr>Element = IDElement ''a'', Timestamp = 7\<rparr>,
      Some \<lparr>Element = VertexElement \<lparr>Key = ''b'', Value = ''here''\<rparr>, Timestamp = 2\<rparr>,
      Some \<lparr>Element = IDElement ''c'', Timestamp = 3\<rparr>,
      Some \<lparr>Element = IDElement ''d'', Timestamp = 1\<rparr>] \<and>
   map (\<lambda>key. map_of (removals (Replicate local_set remote_set)) key) [''a'', ''b'', ''c'', ''d''] =
     [Some 8, Some 5, Some 6, Some 9]"
proof -
  have d: "distinct (map fst (additions remote_set))" "distinct (map fst (removals remote_set))"
    by (simp_all add: remote_set_def)
  show ?thesis
    using d Replicate_strictly_later [OF d, of local_set "''a''"]
      Replicate_strictly_later [OF d, of local_set "''b''"]
      Replicate_strictly_later [OF d, of local_set "''c''"]
      Replicate_strictly_later [OF d, of local_set "''d''"]
    by (simp add: local_set_def remote_set_def After_def)
qed

section \<open>The claims about the graph\<close>

text \<open>
  C6. \<^verbatim>\<open>FindConnected\<close> returns on every graph and every key, and \<^verbatim>\<open>FindPath\<close> returns on
  every graph and every pair of keys once the depth its calls may reach exceeds the number
  of records in the vertex set: no self-loop and no cycle keeps either of them running,
  whether a path exists or not.
\<close>

theorem traversals_return:
  "FindConnected g key \<noteq> None \<and>
   (length (additions (vertices g)) < depth \<longrightarrow> FindPath depth g fromKey toKey \<noteq> None)"
  using connect_queue_returns FindPath_returns
  by (simp add: FindConnected_def split: sum.splits)

theorem traversals_return_witness:
  "length (additions (vertices cycles)) < 5 \<and>
   FindConnected cycles ''vertex1'' \<noteq> None \<and>
   FindPath 5 cycles ''vertex3'' ''vertex2'' \<noteq> None \<and>
   map_option snd (FindConnected cycles ''vertex1'') =
     Some (Inr (Slice [vertex2, vertex1, vertex3, vertex4])) \<and>
   map_option snd (FindPath 5 cycles ''vertex3'' ''vertex2'') =
     Some (Inr [vertex3, vertex4, vertex1, vertex2])"
proof -
  have small: "length (additions (vertices cycles)) < 5" by code_simp
  have connected: "map_option snd (FindConnected cycles ''vertex1'') =
      Some (Inr (Slice [vertex2, vertex1, vertex3, vertex4]))" by code_simp
  have path: "map_option snd (FindPath 5 cycles ''vertex3'' ''vertex2'') =
      Some (Inr [vertex3, vertex4, vertex1, vertex2])" by code_simp
  from traversals_return [of cycles "''vertex1''" 5 "''vertex3''" "''vertex2''"] small
  have "FindConnected cycles ''vertex1'' \<noteq> None"
    and "FindPath 5 cycles ''vertex3'' ''vertex2'' \<noteq> None" by simp_all
  with small connected path show ?thesis by simp
qed

text \<open>
  C8. \<^verbatim>\<open>RemoveVertex\<close> of a live key returns no error, records the removal of the key in the
  vertex set and leaves the additions of the vertex set and the whole of \<^verbatim>\<open>edges\<close> as they
  were: every adjacency set, the one of the removed key among them, is unchanged.
\<close>

theorem RemoveVertex_keeps_edges:
  assumes "Lookup g key = Inr v"
  shows "snd (RemoveVertex key now g) = None \<and>
     edges (fst (RemoveVertex key now g)) = edges g \<and>
     (\<forall>k. adjacent_of (fst (RemoveVertex key now g)) k = adjacent_of g k) \<and>
     additions (vertices (fst (RemoveVertex key now g))) = additions (vertices g) \<and>
     removals (vertices (fst (RemoveVertex key now g))) =
       AList.update key now (removals (vertices g))"
  using assms by (simp add: RemoveVertex_def Remove_def adjacent_of_alt)

theorem RemoveVertex_keeps_edges_witness:
  "Lookup five ''vertex3'' = Inr vertex3 \<and>
   snd (RemoveVertex ''vertex3'' 10 five) = None \<and>
   edges without_vertex3 = edges five \<and>
   map GetKey (elems (Set_List (adjacent_of without_vertex3 ''vertex3''))) = [''vertex5''] \<and>
   map_of (removals (vertices without_vertex3)) ''vertex3'' = Some 10"
proof -
  have l: "Lookup five ''vertex3'' = Inr vertex3" by code_simp
  have a: "map GetKey (elems (Set_List (adjacent_of five ''vertex3''))) = [''vertex5'']"
    by code_simp
  from RemoveVertex_keeps_edges [OF l, of 10] l a show ?thesis
    by (simp add: without_vertex3_def update_conv')
qed

text \<open>
  C9. In a graph whose vertex set holds vertices, \<^verbatim>\<open>AddEdge\<close> and \<^verbatim>\<open>RemoveEdge\<close> return
  \<^verbatim>\<open>ErrVertexNotFound\<close> and the graph as it was when \<open>fromKey\<close> or \<open>toKey\<close> is not live. When
  both are live they return no error, leave the vertex set alone, and put under \<open>fromKey\<close>
  the adjacency set of \<open>fromKey\<close> with the add, respectively the removal, of \<open>toKey\<close>
  recorded at the time of the call; no other adjacency set changes.
\<close>

theorem edge_operations:
  assumes "vertex_set (vertices g)"
  shows
    "(\<not> (live g fromKey \<and> live g toKey) \<longrightarrow>
        AddEdge fromKey toKey now g = (g, Some ErrVertexNotFound) \<and>
        RemoveEdge fromKey toKey now g = (g, Some ErrVertexNotFound)) \<and>
     (live g fromKey \<and> live g toKey \<longrightarrow>
        snd (AddEdge fromKey toKey now g) = None \<and>
        vertices (fst (AddEdge fromKey toKey now g)) = vertices g \<and>
        map_of (edges (fst (AddEdge fromKey toKey now g))) =
          (map_of (edges g))(fromKey \<mapsto> Add (IDElement toKey) now (adjacent_of g fromKey)) \<and>
        snd (RemoveEdge fromKey toKey now g) = None \<and>
        vertices (fst (RemoveEdge fromKey toKey now g)) = vertices g \<and>
        map_of (edges (fst (RemoveEdge fromKey toKey now g))) =
          (map_of (edges g))(fromKey \<mapsto> Remove toKey now (adjacent_of g fromKey)))"
proof -
  have err: "Lookup g k = Inl e \<Longrightarrow> e = ErrVertexNotFound" for k e
    using assms by (rule Lookup_Inl)
  show ?thesis
    by (auto simp: AddEdge_def RemoveEdge_def live_def adjacent_of_def getAdjacent_def update_conv'
        split: sum.splits option.splits dest: err)
qed

theorem edge_operations_witness:
  "vertex_set (vertices without_vertex3) \<and>
   live without_vertex3 ''vertex1'' \<and> live without_vertex3 ''vertex5'' \<and>
   \<not> live without_vertex3 ''vertex3'' \<and>
   AddEdge ''vertex1'' ''vertex3'' 11 without_vertex3 =
     (without_vertex3, Some ErrVertexNotFound) \<and>
   RemoveEdge ''vertex3'' ''vertex5'' 11 without_vertex3 =
     (without_vertex3, Some ErrVertexNotFound) \<and>
   snd (AddEdge ''vertex5'' ''vertex1'' 11 without_vertex3) = None \<and>
   map_of (edges (fst (AddEdge ''vertex5'' ''vertex1'' 11 without_vertex3))) ''vertex5'' =
     Some (Add (IDElement ''vertex1'') 11 NewSet) \<and>
   snd (RemoveEdge ''vertex1'' ''vertex5'' 11 without_vertex3) = None \<and>
   map_of (edges (fst (RemoveEdge ''vertex1'' ''vertex5'' 11 without_vertex3))) ''vertex1'' =
     Some (Remove ''vertex5'' 11 (adjacent_of without_vertex3 ''vertex1''))"
proof -
  have w: "vertex_set (vertices without_vertex3)" by code_simp
  have l: "live without_vertex3 ''vertex1''" "live without_vertex3 ''vertex5''"
    "\<not> live without_vertex3 ''vertex3''" by code_simp+
  have n: "adjacent_of without_vertex3 ''vertex5'' = NewSet" by code_simp
  from edge_operations [OF w, of "''vertex1''" "''vertex3''" 11]
    edge_operations [OF w, of "''vertex3''" "''vertex5''" 11]
    edge_operations [OF w, of "''vertex5''" "''vertex1''" 11]
    edge_operations [OF w, of "''vertex1''" "''vertex5''" 11] w l n
  show ?thesis by simp
qed

text \<open>
  C4. In a graph whose vertex set holds vertices, \<^verbatim>\<open>FindConnected\<close> of a live key returns
  without an error, and returns, each once, exactly the live vertices that a chain of
  edges to live targets reaches from the key. An adjacency key whose vertex is not live is
  no edge: the vertex is not in the result, nothing is reached through it, and the call
  does not fail. With the edges v1 to v2, v1 to v3, v3 to v5, v4 to v3 and v3 removed,
  \<^verbatim>\<open>FindConnected\<close> of v1 returns v2 alone.
\<close>

theorem FindConnected_skips_dead_targets:
  "(vertex_set (vertices g) \<and> Lookup g key = Inr start \<longrightarrow>
      (\<exists>g' connected. FindConnected g key = Some (g', Inr (Slice connected)) \<and>
         Key ` set connected = (edge_rel g)\<^sup>+ `` {key} \<and> distinct (map Key connected) \<and>
         (\<forall>v\<in>set connected. Lookup g (Key v) = Inr v))) \<and>
   map_option snd (FindConnected without_vertex3 ''vertex1'') = Some (Inr (Slice [vertex2]))"
proof -
  have "map_option snd (FindConnected without_vertex3 ''vertex1'') = Some (Inr (Slice [vertex2]))"
    by code_simp
  with FindConnected_reaches [of g key start] show ?thesis by blast
qed

theorem FindConnected_skips_dead_targets_witness:
  "vertex_set (vertices without_vertex3) \<and>
   Lookup without_vertex3 ''vertex1'' = Inr vertex1 \<and>
   map GetKey (elems (Set_List (adjacent_of without_vertex3 ''vertex1''))) =
     [''vertex2'', ''vertex3''] \<and>
   targets without_vertex3 ''vertex1'' = [''vertex2''] \<and>
   (\<exists>g' connected.
      FindConnected without_vertex3 ''vertex1'' = Some (g', Inr (Slice connected)) \<and>
      Key ` set connected = (edge_rel without_vertex3)\<^sup>+ `` {''vertex1''})"
proof -
  have w: "vertex_set (vertices without_vertex3)" by code_simp
  have l: "Lookup without_vertex3 ''vertex1'' = Inr vertex1" by code_simp
  have a: "map GetKey (elems (Set_List (adjacent_of without_vertex3 ''vertex1''))) =
      [''vertex2'', ''vertex3'']" by code_simp
  have t: "targets without_vertex3 ''vertex1'' = [''vertex2'']" by code_simp
  from FindConnected_skips_dead_targets [of without_vertex3 "''vertex1''" vertex1] w l
  have "\<exists>g' connected.
      FindConnected without_vertex3 ''vertex1'' = Some (g', Inr (Slice connected)) \<and>
      Key ` set connected = (edge_rel without_vertex3)\<^sup>+ `` {''vertex1''}"
    by blast
  with w l a t show ?thesis by simp
qed

text \<open>
  C5. In a graph whose vertex set holds vertices, a path that \<^verbatim>\<open>FindPath\<close> returns has at
  least two entries, starts with the vertex of \<open>fromKey\<close>, ends with the vertex of \<open>toKey\<close>
  and follows the edges. When both keys are live and no chain of edges leads from
  \<open>fromKey\<close> to \<open>toKey\<close> (for \<open>fromKey = toKey\<close>: no cycle through the vertex), the call
  fails with \<^verbatim>\<open>ErrPathNotFound\<close>. When the adjacency set of a live key lists only the key
  itself, the path from the key to itself is its vertex twice.
\<close>

theorem FindPath_follows_edges:
  assumes "vertex_set (vertices g)"
  shows
    "(FindPath depth g fromKey toKey = Some (g', Inr path) \<longrightarrow>
        2 \<le> length path \<and> Lookup g fromKey = Inr (hd path) \<and>
        Lookup g toKey = Inr (last path) \<and> follows g path) \<and>
     (live g fromKey \<and> live g toKey \<and> (fromKey, toKey) \<notin> (edge_rel g)\<^sup>+ \<and>
      length (additions (vertices g)) < depth \<longrightarrow>
        map_option snd (FindPath depth g fromKey toKey) = Some (Inl ErrPathNotFound)) \<and>
     (Lookup g key = Inr v \<and> map GetKey (elems (Set_List (adjacent_of g key))) = [key] \<and>
      0 < depth \<longrightarrow>
        map_option snd (FindPath depth g key key) = Some (Inr [v, v]))"
proof (intro conjI impI)
  assume "FindPath depth g fromKey toKey = Some (g', Inr path)"
  from FindPath_sound [OF assms this]
  show "2 \<le> length path" "Lookup g fromKey = Inr (hd path)"
    "Lookup g toKey = Inr (last path)" "follows g path" by simp_all
next
  assume "live g fromKey \<and> live g toKey \<and> (fromKey, toKey) \<notin> (edge_rel g)\<^sup>+ \<and>
      length (additions (vertices g)) < depth"
  then show "map_option snd (FindPath depth g fromKey toKey) = Some (Inl ErrPathNotFound)"
    using FindPath_no_path [OF assms] by simp
next
  assume "Lookup g key = Inr v \<and> map GetKey (elems (Set_List (adjacent_of g key))) = [key] \<and>
      0 < depth"
  then show "map_option snd (FindPath depth g key key) = Some (Inr [v, v])"
    using FindPath_self_loop [OF assms] by simp
qed

theorem FindPath_follows_edges_witness:
  "vertex_set (vertices five) \<and> vertex_set (vertices only_vertex1) \<and>
   vertex_set (vertices self_loop) \<and>
   map_option snd (FindPath 6 five ''vertex4'' ''vertex5'') =
     Some (Inr [vertex4, vertex3, vertex5]) \<and>
   follows five [vertex4, vertex3, vertex5] \<and>
   live only_vertex1 ''vertex1'' \<and>
   (''vertex1'', ''vertex1'') \<notin> (edge_rel only_vertex1)\<^sup>+ \<and>
   map_option snd (FindPath 2 only_vertex1 ''vertex1'' ''vertex1'') = Some (Inl ErrPathNotFound) \<and>
   Lookup self_loop ''vertex1'' = Inr vertex1 \<and>
   map GetKey (elems (Set_List (adjacent_of self_loop ''vertex1''))) = [''vertex1''] \<and>
   map_option snd (FindPath 2 self_loop ''vertex1'' ''vertex1'') = Some (Inr [vertex1, vertex1])"
proof -
  have w: "vertex_set (vertices five)" "vertex_set (vertices only_vertex1)"
    "vertex_set (vertices self_loop)" by code_simp+
  obtain g' where p: "FindPath 6 five ''vertex4'' ''vertex5'' = Some (g', Inr [vertex4, vertex3, vertex5])"
  proof -
    have "map_option snd (FindPath 6 five ''vertex4'' ''vertex5'') =
        Some (Inr [vertex4, vertex3, vertex5])" by code_simp
    then show ?thesis using that by (cases "FindPath 6 five ''vertex4'' ''vertex5''") auto
  qed
  from FindPath_follows_edges
    [OF w(1), of 6 "''vertex4''" "''vertex5''" g' "[vertex4, vertex3, vertex5]"] p
  have f: "follows five [vertex4, vertex3, vertex5]" by blast
  have l: "live only_vertex1 ''vertex1''" by code_simp
  have "targets only_vertex1 k = []" for k
    by (simp add: targets_def adjacent_of_alt only_vertex1_def AddVertex_def NewGraph_def
        Lookup_def Contains_def NewSet_def Set_List_def)
  then have e: "edge_rel only_vertex1 = {}" by (simp add: edge_rel_def)
  then have n: "(''vertex1'', ''vertex1'') \<notin> (edge_rel only_vertex1)\<^sup>+" by simp
  have d: "length (additions (vertices only_vertex1)) < 2" by code_simp
  from FindPath_follows_edges [OF w(2), of 2 "''vertex1''" "''vertex1''"] l n d
  have none: "map_option snd (FindPath 2 only_vertex1 ''vertex1'' ''vertex1'') =
      Some (Inl ErrPathNotFound)" by blast
  have s: "Lookup self_loop ''vertex1'' = Inr vertex1"
    "map GetKey (elems (Set_List (adjacent_of self_loop ''vertex1''))) = [''vertex1'']"
    by code_simp+
  from FindPath_follows_edges [OF w(3), of 2 _ _ _ _ "''vertex1''" vertex1] s
  have loop: "map_option snd (FindPath 2 self_loop ''vertex1'' ''vertex1'') =
      Some (Inr [vertex1, vertex1])" by simp
  from p have p': "map_option snd (FindPath 6 five ''vertex4'' ''vertex5'') =
      Some (Inr [vertex4, vertex3, vertex5])" by simp
  show ?thesis by (intro conjI w p' f l n none s loop)
qed

text \<open>
  C7. In a graph the operations reach, \<^verbatim>\<open>List\<close> returns without an error a list whose vertices
  are exactly the live ones, in strictly ascending order of their keys; each comes with
  the keys its adjacency set lists, all of them (whether or not their vertices are live),
  in ascending order. The result depends on the registers only: two graphs holding the
  same registers, in whatever order their maps are walked, list the same.
\<close>

theorem Graph_List_sorted_live:
  assumes "wf_Graph g"
  shows "\<exists>list. snd (Graph_List g) = Inr (Slice list) \<and>
     sorted (map (Key \<circ> Vertex) list) \<and> distinct (map (Key \<circ> Vertex) list) \<and>
     Vertex ` set list = {v. Lookup g (Key v) = Inr v} \<and>
     (\<forall>vwe\<in>set list. \<exists>keys. AdjacentKeys vwe = Slice keys \<and> sorted keys \<and>
        mset keys = mset (map GetKey (elems (Set_List (adjacent_of g (Key (Vertex vwe))))))) \<and>
     (\<forall>g'. wf_Graph g' \<and> same_registers g g' \<longrightarrow> snd (Graph_List g') = snd (Graph_List g))"
proof -
  define vl where "vl = found g (sort_key GetKey (elems (Set_List (vertices g))))"
  from assms have vs: "vertex_set (vertices g)" by (simp add: wf_Graph_def)
  from listed_vertices [OF vs vl_def]
  have p: "sorted (map Key vl)" "distinct (map Key vl)" "set vl = {v. Lookup g (Key v) = Inr v}"
    by simp_all
  have l: "snd (Graph_List g) = Inr (Slice (map (entry g) vl))"
    by (simp add: Graph_List_closed [OF vs] vl_def)
  have k: "map (Key \<circ> Vertex) (map (entry g) vl) = map Key vl" by (simp add: entry_def)
  have v: "Vertex ` set (map (entry g) vl) = set vl" by (force simp: entry_def)
  have a: "\<forall>vwe\<in>set (map (entry g) vl). \<exists>keys. AdjacentKeys vwe = Slice keys \<and> sorted keys \<and>
      mset keys = mset (map GetKey (elems (Set_List (adjacent_of g (Key (Vertex vwe))))))"
    by (auto simp: entry_def)
  have s: "\<forall>g'. wf_Graph g' \<and> same_registers g g' \<longrightarrow> snd (Graph_List g') = snd (Graph_List g)"
    using Graph_List_same [OF assms] by blast
  from l p k v a s show ?thesis by (intro exI [of _ "map (entry g) vl"]) (simp only: simp_thms)
qed

theorem Graph_List_sorted_live_witness:
  "wf_Graph without_vertex3 \<and>
   snd (Graph_List without_vertex3) =
     Inr (Slice
       [\<lparr>Vertex = vertex1, AdjacentKeys = Slice [''vertex2'', ''vertex3'']\<rparr>,
        \<lparr>Vertex = vertex2, AdjacentKeys = Slice []\<rparr>,
        \<lparr>Vertex = vertex4, AdjacentKeys = Slice [''vertex3'']\<rparr>,
        \<lparr>Vertex = vertex5, AdjacentKeys = Slice []\<rparr>]) \<and>
   \<not> live without_vertex3 ''vertex3'' \<and>
   map fst (additions (vertices (reversed without_vertex3))) =
     [''vertex5'', ''vertex4'', ''vertex3'', ''vertex2'', ''vertex1''] \<and>
   wf_Graph (reversed without_vertex3) \<and>
   same_registers without_vertex3 (reversed without_vertex3) \<and>
   snd (Graph_List (reversed without_vertex3)) = snd (Graph_List without_vertex3)"
proof -
  have w: "wf_Graph without_vertex3" by code_simp
  have l: "snd (Graph_List without_vertex3) =
     Inr (Slice
       [\<lparr>Vertex = vertex1, AdjacentKeys = Slice [''vertex2'', ''vertex3'']\<rparr>,
        \<lparr>Vertex = vertex2, AdjacentKeys = Slice []\<rparr>,
        \<lparr>Vertex = vertex4, AdjacentKeys = Slice [''vertex3'']\<rparr>,
        \<lparr>Vertex = vertex5, AdjacentKeys = Slice []\<rparr>])" by code_simp
  have n: "\<not> live without_vertex3 ''vertex3''" by code_simp
  have r: "map fst (additions (vertices (reversed without_vertex3))) =
     [''vertex5'', ''vertex4'', ''vertex3'', ''vertex2'', ''vertex1'']" by code_simp
  note s = reversed_same [OF w]
  from Graph_List_sorted_live [OF w] s
  have "snd (Graph_List (reversed without_vertex3)) = snd (Graph_List without_vertex3)"
    by blast
  with w l n r s show ?thesis by simp
qed

text \<open>
  C10. \<^verbatim>\<open>Set.List\<close> never returns \<^verbatim>\<open>nil\<close>, and returns the empty list when no key of the set
  is found; a list that \<^verbatim>\<open>FindConnected\<close> returns without an error is not \<^verbatim>\<open>nil\<close>, and is
  the empty list for a live key without a live target; a list that \<^verbatim>\<open>Graph.List\<close> returns
  without an error is not \<^verbatim>\<open>nil\<close>, and is the empty list when no key is live.
\<close>

theorem lists_are_never_nil:
  "Set_List s \<noteq> NilSlice \<and>
   (keyed s \<and> (\<forall>k. Contains s k = Inl ErrElementNotFound) \<longrightarrow> Set_List s = Slice []) \<and>
   (FindConnected g key = Some (g', Inr connected) \<longrightarrow> connected \<noteq> NilSlice) \<and>
   (vertex_set (vertices g) \<and> live g key \<and> targets g key = [] \<longrightarrow>
      map_option snd (FindConnected g key) = Some (Inr (Slice []))) \<and>
   (snd (Graph_List g) = Inr list \<longrightarrow> list \<noteq> NilSlice) \<and>
   (vertex_set (vertices g) \<and> (\<forall>k. \<not> live g k) \<longrightarrow> snd (Graph_List g) = Inr (Slice []))"
  using Set_List_no_live [of s] FindConnected_slice [of g key g' connected]
    FindConnected_no_targets [of g key] Graph_List_slice [of g list] Graph_List_no_live [of g]
  by (simp add: Set_List_eq)

theorem lists_are_never_nil_witness:
  "keyed readded \<and> Set_List readded = Slice [] \<and>
   vertex_set (vertices only_vertex1) \<and> live only_vertex1 ''vertex1'' \<and>
   targets only_vertex1 ''vertex1'' = [] \<and>
   map_option snd (FindConnected only_vertex1 ''vertex1'') = Some (Inr (Slice [])) \<and>
   vertex_set (vertices NewGraph) \<and> snd (Graph_List NewGraph) = Inr (Slice [])"
proof -
  have k: "keyed readded" by code_simp
  have c: "\<forall>key. Contains readded key = Inl ErrElementNotFound"
    by (simp add: readded_def Add_def Remove_def NewSet_def Contains_def removed_def comma_ok_def)
  have v: "vertex_set (vertices only_vertex1)" "live only_vertex1 ''vertex1''"
    "targets only_vertex1 ''vertex1'' = []" by code_simp+
  have n: "vertex_set (vertices NewGraph)" by code_simp
  have d: "\<forall>key. \<not> live NewGraph key"
    by (simp add: live_def Lookup_def Contains_def NewGraph_def NewSet_def)
  from lists_are_never_nil [of readded only_vertex1 "''vertex1''"] k c v
  have a: "Set_List readded = Slice []"
    "map_option snd (FindConnected only_vertex1 ''vertex1'') = Some (Inr (Slice []))"
    by blast+
  from lists_are_never_nil [of _ NewGraph] n d
  have b: "snd (Graph_List NewGraph) = Inr (Slice [])" by blast
  show ?thesis by (intro conjI k v n a b)
qed

text \<open>
  C2, as the claim states it, fails: when two replicas add the same vertex key with
  different values at the same time, each keeps its own record in every merge (a remote
  record replaces the local one only when strictly later), and after merging each into the
  other the two list different vertices.
\<close>

theorem simultaneous_adds_diverge:
  "list_all wf_Graph [tie_a, tie_b] \<and>
   heard 2 [(0, 1), (1, 0)] 0 = {0, 1} \<and> heard 2 [(0, 1), (1, 0)] 1 = {0, 1} \<and>
   snd (Graph_List (merges [(0, 1), (1, 0)] [tie_a, tie_b] ! 0)) =
     Inr (Slice [\<lparr>Vertex = \<lparr>Key = ''k'', Value = ''a''\<rparr>, AdjacentKeys = Slice []\<rparr>]) \<and>
   snd (Graph_List (merges [(0, 1), (1, 0)] [tie_a, tie_b] ! 1)) =
     Inr (Slice [\<lparr>Vertex = \<lparr>Key = ''k'', Value = ''b''\<rparr>, AdjacentKeys = Slice []\<rparr>]) \<and>
   snd (Graph_List (merges [(0, 1), (1, 0)] [tie_a, tie_b] ! 0)) \<noteq>
     snd (Graph_List (merges [(0, 1), (1, 0)] [tie_a, tie_b] ! 1))"
  by code_simp

text \<open>
  C2, amended. Take replicas in states the operations reach, consistent in that no two of
  them hold different add records of one vertex key with the same timestamp. After any
  schedule of merges, two replicas that the states of the same replicas have reached return
  the same from \<^verbatim>\<open>List\<close>; and after any schedule in which, at some point, every replica in
  turn merges every other one (whatever merges come before and after, repeated ones
  included), all replicas return the same from \<^verbatim>\<open>List\<close>.
\<close>

theorem replicas_converge:
  assumes "list_all wf_Graph replicas" and "consistent replicas"
    and "i < length replicas" and "j < length replicas"
  shows
    "(heard (length replicas) schedule i = heard (length replicas) schedule j \<longrightarrow>
        snd (Graph_List (merges schedule replicas ! i)) =
        snd (Graph_List (merges schedule replicas ! j))) \<and>
     snd (Graph_List (merges (before @ all_pairs (length replicas) @ after) replicas ! i)) =
     snd (Graph_List (merges (before @ all_pairs (length replicas) @ after) replicas ! j))"
proof
  show "heard (length replicas) schedule i = heard (length replicas) schedule j \<longrightarrow>
      snd (Graph_List (merges schedule replicas ! i)) =
      snd (Graph_List (merges schedule replicas ! j))"
    using same_heard_same_list [OF assms] by blast
next
  let ?s = "before @ all_pairs (length replicas) @ after"
  from assms(3,4) have "heard (length replicas) ?s i = heard (length replicas) ?s j"
    by (simp only: heard_all_pairs)
  then show "snd (Graph_List (merges ?s replicas ! i)) = snd (Graph_List (merges ?s replicas ! j))"
    by (rule same_heard_same_list [OF assms])
qed

theorem replicas_converge_witness:
  "list_all wf_Graph hanging \<and> consistent hanging \<and> length hanging = 3 \<and>
   heard 3 [(0, 1), (1, 0)] 0 = heard 3 [(0, 1), (1, 0)] 1 \<and>
   snd (Graph_List (merges [(0, 1), (1, 0)] hanging ! 0)) =
     snd (Graph_List (merges [(0, 1), (1, 0)] hanging ! 1)) \<and>
   snd (Graph_List (replicateGraphs hanging ! 0)) = snd (Graph_List (replicateGraphs hanging ! 1)) \<and>
   snd (Graph_List (replicateGraphs hanging ! 1)) = snd (Graph_List (replicateGraphs hanging ! 2)) \<and>
   map (\<lambda>g. map GetKey (elems (Set_List (adjacent_of g ''vertex1'')))) (replicateGraphs hanging) =
     [[''vertex2''], [''vertex2''], [''vertex2'']]"
proof -
  have w: "list_all wf_Graph hanging" by code_simp
  have c: "consistent hanging" by code_simp
  have n: "length hanging = 3" by code_simp
  have h: "heard 3 [(0, 1), (1, 0)] 0 = heard 3 [(0, 1), (1, 0)] 1" by code_simp
  have e: "map (\<lambda>g. map GetKey (elems (Set_List (adjacent_of g ''vertex1'')))) (replicateGraphs hanging) =
     [[''vertex2''], [''vertex2''], [''vertex2'']]" by code_simp
  have i: "0 < length hanging" "1 < length hanging" "2 < length hanging" by (simp_all add: n)
  from replicas_converge [OF w c i(1) i(2), of "[(0, 1), (1, 0)]" "[]" "[]"] h n
  have a: "snd (Graph_List (merges [(0, 1), (1, 0)] hanging ! 0)) =
      snd (Graph_List (merges [(0, 1), (1, 0)] hanging ! 1))"
    and b: "snd (Graph_List (replicateGraphs hanging ! 0)) =
      snd (Graph_List (replicateGraphs hanging ! 1))"
    by (simp_all add: replicateGraphs_def)
  from replicas_converge [OF w c i(2) i(3), of "[]" "[]" "[]"] n
  have d: "snd (Graph_List (replicateGraphs hanging ! 1)) =
      snd (Graph_List (replicateGraphs hanging ! 2))"
    by (simp add: replicateGraphs_def)
  show ?thesis by (intro conjI w c n h a b d e)
qed

section \<open>The earlier revision of the traversals\<close>

text \<open>
  X1. In the earlier revision, in a graph whose vertex set holds vertices, \<^verbatim>\<open>FindConnected\<close> of
  a live key whose adjacency set lists the key of a vertex that is not live returns the
  error \<^verbatim>\<open>ErrVertexNotFound\<close>: the target is not skipped.
\<close>

theorem FindConnected_early_fails_at_dead_target:
  assumes "vertex_set (vertices g)" and "live g key"
    and "\<exists>k\<in>set (map GetKey (elems (Set_List (adjacent_of g key)))). \<not> live g k"
  shows "map_option snd (FindConnected_early g key) = Some (Inl ErrVertexNotFound)"
  using assms by (rule FindConnected_early_stops)

theorem FindConnected_early_fails_at_dead_target_witness:
  "vertex_set (vertices without_vertex3) \<and> live without_vertex3 ''vertex1'' \<and>
   map GetKey (elems (Set_List (adjacent_of without_vertex3 ''vertex1''))) =
     [''vertex2'', ''vertex3''] \<and>
   live without_vertex3 ''vertex2'' \<and> \<not> live without_vertex3 ''vertex3'' \<and>
   map_option snd (FindConnected_early without_vertex3 ''vertex1'') =
     Some (Inl ErrVertexNotFound) \<and>
   map_option snd (FindConnected without_vertex3 ''vertex1'') = Some (Inr (Slice [vertex2]))"
proof -
  have w: "vertex_set (vertices without_vertex3)" by code_simp
  have l: "live without_vertex3 ''vertex1''" by code_simp
  have a: "map GetKey (elems (Set_List (adjacent_of without_vertex3 ''vertex1''))) =
      [''vertex2'', ''vertex3'']" by code_simp
  have l2: "live without_vertex3 ''vertex2''" by code_simp
  have l3: "\<not> live without_vertex3 ''vertex3''" by code_simp
  have c: "map_option snd (FindConnected without_vertex3 ''vertex1'') = Some (Inr (Slice [vertex2]))"
    by code_simp
  from a l3 have "\<exists>k\<in>set (map GetKey (elems (Set_List (adjacent_of without_vertex3 ''vertex1'')))).
      \<not> live without_vertex3 k" by simp
  from FindConnected_early_fails_at_dead_target [OF w l this]
  have e: "map_option snd (FindConnected_early without_vertex3 ''vertex1'') =
      Some (Inl ErrVertexNotFound)" .
  show ?thesis by (intro conjI w l a l2 l3 e c)
qed

text \<open>
  X2. In the earlier revision, in a graph whose vertex set holds vertices, \<^verbatim>\<open>FindPath\<close> from a
  live key does not return when every key that the adjacency set of \<open>fromKey\<close> lists is the key
  of a live vertex other than \<open>toKey\<close>, and so when the set lists no key: every turn of the loop
  pops the start vertex again. It does not return either where a longer path leads to
  \<open>toKey\<close>.
\<close>

theorem FindPath_early_never_returns:
  assumes "vertex_set (vertices g)" and "live g fromKey"
    and "\<forall>key\<in>set (map GetKey (elems (Set_List (adjacent_of g fromKey)))).
      live g key \<and> key \<noteq> toKey"
  shows "FindPath_early g fromKey toKey = None"
  using assms by (rule FindPath_early_turns)

theorem FindPath_early_never_returns_witness:
  "vertex_set (vertices five) \<and> live five ''vertex1'' \<and>
   map GetKey (elems (Set_List (adjacent_of five ''vertex1''))) = [''vertex2'', ''vertex3''] \<and>
   live five ''vertex2'' \<and> live five ''vertex3'' \<and>
   FindPath_early five ''vertex1'' ''vertex5'' = None \<and>
   map_option snd (FindPath 5 five ''vertex1'' ''vertex5'') =
     Some (Inr [vertex1, vertex3, vertex5]) \<and>
   map GetKey (elems (Set_List (adjacent_of five ''vertex2''))) = [] \<and>
   FindPath_early five ''vertex2'' ''vertex1'' = None \<and>
   map_option snd (FindPath 5 five ''vertex2'' ''vertex1'') = Some (Inl ErrPathNotFound)"
proof -
  have w: "vertex_set (vertices five)" by code_simp
  have l: "live five ''vertex1''" by code_simp
  have a: "map GetKey (elems (Set_List (adjacent_of five ''vertex1''))) = [''vertex2'', ''vertex3'']"
    by code_simp
  have l2: "live five ''vertex2''" by code_simp
  have l3: "live five ''vertex3''" by code_simp
  have p: "map_option snd (FindPath 5 five ''vertex1'' ''vertex5'') =
      Some (Inr [vertex1, vertex3, vertex5])" by code_simp
  have a2: "map GetKey (elems (Set_List (adjacent_of five ''vertex2''))) = []" by code_simp
  have p2: "map_option snd (FindPath 5 five ''vertex2'' ''vertex1'') = Some (Inl ErrPathNotFound)"
    by code_simp
  from a l2 l3 have "\<forall>key\<in>set (map GetKey (elems (Set_List (adjacent_of five ''vertex1'')))).
      live five key \<and> key \<noteq> ''vertex5''" by simp
  from FindPath_early_never_returns [OF w l this]
  have n: "FindPath_early five ''vertex1'' ''vertex5'' = None" .
  from a2 have "\<forall>key\<in>set (map GetKey (elems (Set_List (adjacent_of five ''vertex2'')))).
      live five key \<and> key \<noteq> ''vertex1''" by simp
  from FindPath_early_never_returns [OF w l2 this]
  have n2: "FindPath_early five ''vertex2'' ''vertex1'' = None" .
  show ?thesis by (intro conjI w l a l2 l3 n p a2 n2 p2)
qed

end
